theory Spec2Isabelle
  imports Complex_Main "HOL-Library.Word" "HOL-Library.Multiset"
begin

section \<open>Values of the host language\<close>

text \<open>
  A JavaScript string is a sequence of UTF-16 code units; \<open>length\<close>, \<open>slice\<close>,
  \<open>substring\<close> and \<open>split\<close> all count code units. A \<open>Buffer\<close> is a sequence of bytes.
\<close>

type_synonym jsstring = "16 word list"
type_synonym buffer = "8 word list"

definition js :: "string \<Rightarrow> jsstring" where
  "js s = map of_char s"

text \<open>
  Numbers are IEEE 754 doubles. \<open>NaN\<close> and the two infinities are values of their own;
  a finite double is given by the real number it stands for. Every arithmetic operation
  rounds its exact result to the nearest double, a tie going to the even significand
  (\<open>fl\<close>): 53 bits of significand, gradual underflow down to the multiples of
  \<open>2^-1074\<close>, and overflow to an infinity from \<open>2^1024\<close> on. The two zeros are not
  told apart: the language compares them as equal, and in \<open>cosineSimilarity\<close> the
  divisor, a product of square roots, is never the negative zero, so the sign of a
  quotient by zero is the sign of the dividend.
\<close>

datatype jsnum = Num real | PInf | NInf | NaN

text \<open>Rounding a real number to the nearest integer, a tie going to the even one.\<close>

definition round_half_even :: "real \<Rightarrow> int" where
  "round_half_even x =
     (let f = \<lfloor>x\<rfloor>; d = x - of_int f
      in if d < 1 / 2 then f else if 1 / 2 < d then f + 1 else if even f then f else f + 1)"

text \<open>
  The exponent of the last bit of the significand of a double near \<open>x\<close>: 52 below the
  binary exponent of \<open>x\<close>, and \<open>-1074\<close> in the range of the subnormal numbers.
\<close>

definition ulp_exponent :: "real \<Rightarrow> int" where
  "ulp_exponent x = max (\<lfloor>log 2 \<bar>x\<bar>\<rfloor> - 52) (- 1074)"

definition fl :: "real \<Rightarrow> jsnum" where
  "fl x =
     (if x = 0 then Num 0
      else (let e = ulp_exponent x;
                y = of_int (round_half_even (x / 2 powi e)) * 2 powi e
            in if 2 ^ 1024 \<le> \<bar>y\<bar> then (if x < 0 then NInf else PInf) else Num y))"

fun jadd :: "jsnum \<Rightarrow> jsnum \<Rightarrow> jsnum" where
  "jadd NaN _ = NaN"
| "jadd _ NaN = NaN"
| "jadd PInf NInf = NaN"
| "jadd NInf PInf = NaN"
| "jadd PInf _ = PInf"
| "jadd _ PInf = PInf"
| "jadd NInf _ = NInf"
| "jadd _ NInf = NInf"
| "jadd (Num x) (Num y) = fl (x + y)"

fun jneg :: "jsnum \<Rightarrow> jsnum" where
  "jneg NaN = NaN"
| "jneg PInf = NInf"
| "jneg NInf = PInf"
| "jneg (Num x) = Num (- x)"

definition jsub :: "jsnum \<Rightarrow> jsnum \<Rightarrow> jsnum" where
  "jsub x y = jadd x (jneg y)"

fun jsign :: "jsnum \<Rightarrow> int" where
  "jsign (Num x) = (if x < 0 then - 1 else if x = 0 then 0 else 1)"
| "jsign PInf = 1"
| "jsign NInf = - 1"
| "jsign NaN = 0"

fun jinf :: "int \<Rightarrow> jsnum" where
  "jinf s = (if s = 0 then NaN else if s < 0 then NInf else PInf)"

fun jmul :: "jsnum \<Rightarrow> jsnum \<Rightarrow> jsnum" where
  "jmul NaN _ = NaN"
| "jmul _ NaN = NaN"
| "jmul (Num x) (Num y) = fl (x * y)"
| "jmul x y = jinf (jsign x * jsign y)"

fun jdiv :: "jsnum \<Rightarrow> jsnum \<Rightarrow> jsnum" where
  "jdiv NaN _ = NaN"
| "jdiv _ NaN = NaN"
| "jdiv (Num x) (Num y) = (if y = 0 then jinf (jsign (Num x)) else fl (x / y))"
| "jdiv (Num x) _ = Num 0"
| "jdiv x (Num y) = jinf (jsign x * (if y < 0 then - 1 else 1))"
| "jdiv _ _ = NaN"

fun jsqrt :: "jsnum \<Rightarrow> jsnum" where
  "jsqrt (Num x) = (if x < 0 then NaN else fl (sqrt x))"
| "jsqrt PInf = PInf"
| "jsqrt _ = NaN"

text \<open>The relational operators of the language: every comparison with \<open>NaN\<close> is false.\<close>

fun jless :: "jsnum \<Rightarrow> jsnum \<Rightarrow> bool" where
  "jless NaN _ = False"
| "jless _ NaN = False"
| "jless (Num x) (Num y) = (x < y)"
| "jless NInf y = (y \<noteq> NInf)"
| "jless x PInf = (x \<noteq> PInf)"
| "jless _ _ = False"

fun jge :: "jsnum \<Rightarrow> jsnum \<Rightarrow> bool" where
  "jge NaN _ = False"
| "jge _ NaN = False"
| "jge x y = (\<not> jless x y)"

datatype jsvalue = JUndefined | JNull | JBool bool | JNumber jsnum | JString jsstring

datatype js_error = Error jsstring

fun message :: "js_error \<Rightarrow> jsstring" where
  "message (Error m) = m"

text \<open>
  \<open>slice(start, end)\<close> of strings and arrays: a negative index counts from the end, and
  both indices are clamped to the length.
\<close>

definition slice :: "'a list \<Rightarrow> int \<Rightarrow> int \<Rightarrow> 'a list" where
  "slice xs start e =
     (let len = int (length xs);
          from = (if start < 0 then max (len + start) 0 else min start len);
          to = (if e < 0 then max (len + e) 0 else min e len)
      in take (nat (to - from)) (drop (nat from) xs))"

text \<open>\<open>split\<close> at a one-unit separator, and \<open>pop\<close> (\<open>undefined\<close> on the empty array).\<close>

fun split :: "16 word \<Rightarrow> jsstring \<Rightarrow> jsstring list" where
  "split sep [] = [[]]"
| "split sep (c # cs) =
     (if c = sep then [] # split sep cs
      else (case split sep cs of [] \<Rightarrow> [[c]] | seg # segs \<Rightarrow> (c # seg) # segs))"

definition pop :: "'a list \<Rightarrow> 'a option" where
  "pop xs = (if xs = [] then None else Some (last xs))"

text \<open>
  \<open>trim\<close> removes the white space and line terminators of ECMAScript from both ends.
\<close>

definition isWhiteSpace :: "16 word \<Rightarrow> bool" where
  "isWhiteSpace c \<longleftrightarrow>
     c \<in> set [0x0009, 0x000A, 0x000B, 0x000C, 0x000D, 0x0020, 0x00A0, 0x1680,
              0x2000, 0x2001, 0x2002, 0x2003, 0x2004, 0x2005, 0x2006, 0x2007,
              0x2008, 0x2009, 0x200A, 0x2028, 0x2029, 0x202F, 0x205F, 0x3000, 0xFEFF]"

definition trim :: "jsstring \<Rightarrow> jsstring" where
  "trim s = rev (dropWhile isWhiteSpace (rev (dropWhile isWhiteSpace s)))"

text \<open>The decimal rendering of a natural number, as a template literal prints it.\<close>

fun decimal :: "nat \<Rightarrow> jsstring" where
  "decimal n = (if n < 10 then [of_nat (48 + n)]
                else decimal (n div 10) @ [of_nat (48 + n mod 10)])"

fun join :: "jsstring \<Rightarrow> jsstring list \<Rightarrow> jsstring" where
  "join sep [] = []"
| "join sep [x] = x"
| "join sep (x # y # ys) = x @ sep @ join sep (y # ys)"

text \<open>
  A \<open>Map\<close> keeps its keys in insertion order: \<open>set\<close> replaces the value of a key in place
  and appends a new key, \<open>delete\<close> removes the key, \<open>values\<close> runs in insertion order.
  Object literals with a spread (\<open>{...metadata, filename, blobId}\<close>) follow the same rule.
\<close>

fun Map_set :: "('k \<times> 'v) list \<Rightarrow> 'k \<Rightarrow> 'v \<Rightarrow> ('k \<times> 'v) list" where
  "Map_set [] k v = [(k, v)]"
| "Map_set ((k', v') # m) k v = (if k' = k then (k, v) # m else (k', v') # Map_set m k v)"

fun Map_get :: "('k \<times> 'v) list \<Rightarrow> 'k \<Rightarrow> 'v option" where
  "Map_get [] k = None"
| "Map_get ((k', v') # m) k = (if k' = k then Some v' else Map_get m k)"

definition Map_delete :: "('k \<times> 'v) list \<Rightarrow> 'k \<Rightarrow> ('k \<times> 'v) list" where
  "Map_delete m k = filter (\<lambda>(k', v'). k' \<noteq> k) m"

definition Map_values :: "('k \<times> 'v) list \<Rightarrow> 'v list" where
  "Map_values m = map snd m"

text \<open>
  \<open>Array.prototype.sort\<close> with a comparison function. The sort reads the number that
  the function returns by its sign, and a \<open>NaN\<close> as zero (\<open>sort_compare\<close>). When the
  function, read in this way, orders the elements (ties are reflexive and transitive,
  less-than is transitive, and the two directions of a comparison agree), all stable
  sorts have the same result, which is the result of the sort: it is computed here by
  the stable insertion sort, where an element moves behind its right neighbour only
  when the comparison of the two is positive. When the function does not order the
  elements, the result depends on the algorithm of the engine, and the language leaves
  it open: it is a parameter, \<open>engine\<close>.
\<close>

definition sort_compare :: "('a \<Rightarrow> 'a \<Rightarrow> jsnum) \<Rightarrow> 'a \<Rightarrow> 'a \<Rightarrow> int" where
  "sort_compare cmp x y =
     (let v = cmp x y in if jless v (Num 0) then - 1 else if jless (Num 0) v then 1 else 0)"

definition consistent :: "('a \<Rightarrow> 'a \<Rightarrow> jsnum) \<Rightarrow> 'a list \<Rightarrow> bool" where
  "consistent cmp xs \<longleftrightarrow>
     (\<forall>a\<in>set xs. \<forall>b\<in>set xs. \<forall>c\<in>set xs.
        sort_compare cmp a a = 0
      \<and> sort_compare cmp b a = - sort_compare cmp a b
      \<and> (sort_compare cmp a b = 0 \<and> sort_compare cmp b c = 0 \<longrightarrow> sort_compare cmp a c = 0)
      \<and> (sort_compare cmp a b < 0 \<and> sort_compare cmp b c < 0 \<longrightarrow> sort_compare cmp a c < 0))"

fun insert_by :: "('a \<Rightarrow> 'a \<Rightarrow> jsnum) \<Rightarrow> 'a \<Rightarrow> 'a list \<Rightarrow> 'a list" where
  "insert_by cmp x [] = [x]"
| "insert_by cmp x (y # ys) =
     (if jless (Num 0) (cmp x y) then y # insert_by cmp x ys else x # y # ys)"

definition stable_sort :: "('a \<Rightarrow> 'a \<Rightarrow> jsnum) \<Rightarrow> 'a list \<Rightarrow> 'a list" where
  "stable_sort cmp xs = foldr (insert_by cmp) xs []"

definition Array_sort :: "('a list \<Rightarrow> 'a list) \<Rightarrow> ('a \<Rightarrow> 'a \<Rightarrow> jsnum) \<Rightarrow> 'a list \<Rightarrow> 'a list" where
  "Array_sort engine cmp xs = (if consistent cmp xs then stable_sort cmp xs else engine xs)"

definition try_catch :: "js_error + 'a \<Rightarrow> (js_error \<Rightarrow> js_error + 'a) \<Rightarrow> js_error + 'a" where
  "try_catch body handler = (case body of Inl e \<Rightarrow> handler e | Inr v \<Rightarrow> Inr v)"

section \<open>The service and its collaborators\<close>

record chunk =
  chunkIndex :: nat
  chunkText :: jsstring
  embedding :: "jsnum list"
  metadata :: "(jsstring \<times> jsvalue) list"

record scored_chunk = chunk +
  score :: jsnum

record source =
  src_blobId :: jsvalue
  src_excerpt :: jsstring
  src_chunkIndex :: nat
  src_score :: jsnum

record ingest_result =
  success :: bool
  res_blobId :: jsstring
  chunksCreated :: nat
  textLength :: nat
  error :: "jsstring option"

record query_result =
  answer :: jsstring
  sources :: "source list"
  question :: jsstring

text \<open>
  The fields of the service object. The client handle \<open>openai\<close> is not a field of the
  model: it is non-null exactly when \<open>available\<close> holds. The two logs are not fields of
  the source: they record, in order, the inputs of the calls made to the embedding and to
  the completion endpoint, so that the number of calls can be stated. The chunk size,
  the overlap and the number of results are what \<open>parseInt\<close> makes of the settings;
  they are integers here (a setting that does not parse, which gives \<open>NaN\<close>, is not
  represented), and so is the \<open>topK\<close> argument of a query.
\<close>

record RAGService =
  available :: bool
  vectorStore :: "(jsstring \<times> chunk list) list"
  chunkSize :: int
  chunkOverlap :: int
  topK :: int
  temperature :: jsnum
  embeddingLog :: "jsstring list"
  completionLog :: "(jsstring \<times> jsstring) list"

text \<open>
  What lies outside the repository: the PDF parser, the runtime's UTF-8 decoder and
  lower-casing, the order in which the engine's sort leaves a list of scored chunks
  that the comparison of the ranking does not order, and the two endpoints of the
  provider. An endpoint may answer differently at each call, so its answer is a function
  of the number of calls made before and of the input.
\<close>

record env =
  pdf :: "buffer \<Rightarrow> js_error + jsstring"
  toString_utf8 :: "buffer \<Rightarrow> jsstring"
  toLowerCase :: "jsstring \<Rightarrow> jsstring"
  engine_sort :: "scored_chunk list \<Rightarrow> scored_chunk list"
  embeddings_create :: "nat \<Rightarrow> jsstring \<Rightarrow> js_error + jsnum list"
  chat_completions_create :: "nat \<Rightarrow> jsstring \<Rightarrow> jsstring \<Rightarrow> jsnum \<Rightarrow> js_error + jsstring"

text \<open>
  The constructor: the fields come from the configuration, the store starts empty, and
  the service is available exactly when an API key is configured (the construction of
  the client is taken to succeed when it is given a key).
\<close>

record config =
  openaiApiKey :: jsstring
  cfg_chunkSize :: int
  cfg_chunkOverlap :: int
  similarityTopK :: int
  llmTemperature :: jsnum

definition new_RAGService :: "config \<Rightarrow> RAGService" where
  "new_RAGService cfg =
     \<lparr>available = (openaiApiKey cfg \<noteq> []), vectorStore = [],
      chunkSize = cfg_chunkSize cfg, chunkOverlap = cfg_chunkOverlap cfg,
      topK = similarityTopK cfg, temperature = llmTemperature cfg,
      embeddingLog = [], completionLog = []\<rparr>"

text \<open>
  The configuration's defaults (chunk size 1000, overlap 200, top 5, temperature 0.1)
  with an API key, and the same with other chunking parameters.
\<close>

definition default_config :: config where
  "default_config =
     \<lparr>openaiApiKey = js ''sk-test'', cfg_chunkSize = 1000, cfg_chunkOverlap = 200,
      similarityTopK = 5, llmTemperature = fl (1 / 10)\<rparr>"

definition service_with :: "int \<Rightarrow> int \<Rightarrow> RAGService" where
  "service_with csize coverlap =
     new_RAGService (default_config\<lparr>cfg_chunkSize := csize, cfg_chunkOverlap := coverlap\<rparr>)"

definition msg_not_available :: jsstring where
  "msg_not_available = js ''RAG Service not available''"

definition msg_no_text :: jsstring where
  "msg_no_text = js ''No text content extracted''"

definition no_documents_answer :: jsstring where
  "no_documents_answer =
     js ''I don't have any documents to search. Please upload some documents first.''"

section \<open>Text extraction\<close>

definition plain_extensions :: "jsstring list" where
  "plain_extensions = map js [''txt'', ''md'', ''markdown'', ''py'', ''js'', ''ts'', ''jsx'',
     ''tsx'', ''json'', ''yaml'', ''yml'', ''html'', ''css'', ''xml'', ''csv'', ''sql'', ''sh'',
     ''bash'', ''env'', ''gitignore'', ''dockerfile'']"

definition extractText :: "env \<Rightarrow> buffer \<Rightarrow> jsstring \<Rightarrow> js_error + jsstring" where
  "extractText ev content filename =
     (let extension = pop (split 0x2E (toLowerCase ev filename))
      in try_catch
           (if extension = Some (js ''pdf'') then
              (case pdf ev content of Inl e \<Rightarrow> Inl e | Inr pdfText \<Rightarrow> Inr pdfText)
            else if extension \<in> Some ` set plain_extensions then Inr (toString_utf8 ev content)
            else Inr (toString_utf8 ev content))
           (\<lambda>e. Inr (toString_utf8 ev content)))"

section \<open>Chunking\<close>

partial_function (option) chunk_loop ::
  "int \<Rightarrow> int \<Rightarrow> jsstring \<Rightarrow> jsstring list \<Rightarrow> int \<Rightarrow> jsstring list option" where
  "chunk_loop csize coverlap txt chunks start =
     (if start < int (length txt) then
        (let e = min (start + csize) (int (length txt));
             chunks' = chunks @ [slice txt start e];
             start' = start + (csize - coverlap)
         in if start' \<ge> int (length txt) then Some chunks'
            else chunk_loop csize coverlap txt chunks' start')
      else Some chunks)"

declare chunk_loop.simps [code]

definition splitIntoChunks :: "RAGService \<Rightarrow> jsstring \<Rightarrow> jsstring list option" where
  "splitIntoChunks this txt = chunk_loop (chunkSize this) (chunkOverlap this) txt [] 0"

section \<open>Embedding and similarity\<close>

definition getEmbedding :: "env \<Rightarrow> RAGService \<Rightarrow> jsstring \<Rightarrow> (js_error + jsnum list) \<times> RAGService" where
  "getEmbedding ev this txt =
     (if \<not> available this then (Inl (Error msg_not_available), this)
      else (embeddings_create ev (length (embeddingLog this)) txt,
            this\<lparr>embeddingLog := embeddingLog this @ [txt]\<rparr>))"

text \<open>
  Reading an array beyond its end gives \<open>undefined\<close>, which a product turns into
  \<open>NaN\<close>.
\<close>

definition elem :: "jsnum list \<Rightarrow> nat \<Rightarrow> jsnum" where
  "elem xs i = (if i < length xs then xs ! i else NaN)"

definition cosine_step :: "jsnum list \<Rightarrow> jsnum list \<Rightarrow> jsnum \<times> jsnum \<times> jsnum \<Rightarrow> nat \<Rightarrow> jsnum \<times> jsnum \<times> jsnum" where
  "cosine_step a b acc i =
     (case acc of (dotProduct, normA, normB) \<Rightarrow>
        (jadd dotProduct (jmul (elem a i) (elem b i)),
         jadd normA (jmul (elem a i) (elem a i)),
         jadd normB (jmul (elem b i) (elem b i))))"

definition cosineSimilarity :: "jsnum list \<Rightarrow> jsnum list \<Rightarrow> jsnum" where
  "cosineSimilarity a b =
     (case foldl (cosine_step a b) (Num 0, Num 0, Num 0) [0..<length a] of
        (dotProduct, normA, normB) \<Rightarrow> jdiv dotProduct (jmul (jsqrt normA) (jsqrt normB)))"

section \<open>Ingestion\<close>

definition failure :: "jsstring \<Rightarrow> jsstring \<Rightarrow> ingest_result" where
  "failure blobId msg =
     \<lparr>success = False, res_blobId = blobId, chunksCreated = 0, textLength = 0, error = Some msg\<rparr>"

definition chunk_metadata :: "(jsstring \<times> jsvalue) list \<Rightarrow> jsstring \<Rightarrow> jsstring \<Rightarrow> (jsstring \<times> jsvalue) list" where
  "chunk_metadata md filename blobId =
     Map_set (Map_set md (js ''filename'') (JString filename)) (js ''blobId'') (JString blobId)"

text \<open>
  The loop over the chunks: \<open>i\<close> is the index of the first chunk still to embed,
  \<open>documentChunks\<close> the records built so far. An exception of the embedding call leaves
  the loop at once.
\<close>

fun embed_loop ::
  "env \<Rightarrow> RAGService \<Rightarrow> jsstring \<Rightarrow> jsstring \<Rightarrow> (jsstring \<times> jsvalue) list \<Rightarrow>
   jsstring list \<Rightarrow> nat \<Rightarrow> chunk list \<Rightarrow> (js_error + chunk list) \<times> RAGService" where
  "embed_loop ev this blobId filename md [] i documentChunks = (Inr documentChunks, this)"
| "embed_loop ev this blobId filename md (c # rest) i documentChunks =
     (case getEmbedding ev this c of
        (Inl e, this') \<Rightarrow> (Inl e, this')
      | (Inr emb, this') \<Rightarrow>
          embed_loop ev this' blobId filename md rest (Suc i)
            (documentChunks @
              [\<lparr>chunkIndex = i, chunkText = c, embedding = emb,
                metadata = chunk_metadata md filename blobId\<rparr>]))"

text \<open>
  \<open>processDocument\<close>: the result is \<open>None\<close> when the chunking loop does not return.
\<close>

definition processDocument ::
  "env \<Rightarrow> RAGService \<Rightarrow> jsstring \<Rightarrow> buffer \<Rightarrow> jsstring \<Rightarrow> (jsstring \<times> jsvalue) list \<Rightarrow>
   (ingest_result \<times> RAGService) option" where
  "processDocument ev this blobId content filename md =
     (if \<not> available this then Some (failure blobId msg_not_available, this)
      else
        (case extractText ev content filename of
           Inl e \<Rightarrow> Some (failure blobId (message e), this)
         | Inr txt \<Rightarrow>
             if txt = [] \<or> length (trim txt) = 0 then Some (failure blobId msg_no_text, this)
             else
               (case splitIntoChunks this txt of
                  None \<Rightarrow> None
                | Some chunks \<Rightarrow>
                    (case embed_loop ev this blobId filename md chunks 0 [] of
                       (Inl e, this') \<Rightarrow> Some (failure blobId (message e), this')
                     | (Inr documentChunks, this') \<Rightarrow>
                         Some (\<lparr>success = True, res_blobId = blobId,
                                chunksCreated = length chunks, textLength = length txt,
                                error = None\<rparr>,
                               this'\<lparr>vectorStore :=
                                 Map_set (vectorStore this') blobId documentChunks\<rparr>)))))"

definition deleteDocument :: "RAGService \<Rightarrow> jsstring \<Rightarrow> (bool \<times> nat) \<times> RAGService" where
  "deleteDocument this blobId =
     (let deletedChunks = (case Map_get (vectorStore this) blobId of
                             None \<Rightarrow> 0 | Some chunks \<Rightarrow> length chunks)
      in ((True, deletedChunks),
          this\<lparr>vectorStore := Map_delete (vectorStore this) blobId\<rparr>))"

section \<open>Query\<close>

text \<open>The candidates: lines 242 to 257 of the service.\<close>

definition allChunks :: "RAGService \<Rightarrow> jsstring list option \<Rightarrow> chunk list" where
  "allChunks this documentIds =
     (case documentIds of
        Some ids \<Rightarrow>
          if length ids > 0 then
            concat (map (\<lambda>docId. case Map_get (vectorStore this) docId of
                                    None \<Rightarrow> [] | Some chunks \<Rightarrow> chunks) ids)
          else concat (Map_values (vectorStore this))
      | None \<Rightarrow> concat (Map_values (vectorStore this)))"

definition with_score :: "jsnum list \<Rightarrow> chunk \<Rightarrow> scored_chunk" where
  "with_score questionEmbedding c =
     \<lparr>chunkIndex = chunkIndex c, chunkText = chunkText c, embedding = embedding c,
      metadata = metadata c, score = cosineSimilarity questionEmbedding (embedding c)\<rparr>"

text \<open>The ranking: lines 268 to 275.\<close>

definition topChunks :: "env \<Rightarrow> jsnum list \<Rightarrow> chunk list \<Rightarrow> int \<Rightarrow> scored_chunk list" where
  "topChunks ev questionEmbedding cs k =
     slice (Array_sort (engine_sort ev) (\<lambda>a b. jsub (score b) (score a))
              (map (with_score questionEmbedding) cs)) 0 k"

definition object_get :: "(jsstring \<times> jsvalue) list \<Rightarrow> jsstring \<Rightarrow> jsvalue" where
  "object_get obj k = (case Map_get obj k of None \<Rightarrow> JUndefined | Some v \<Rightarrow> v)"

definition format_source :: "scored_chunk \<Rightarrow> source" where
  "format_source c =
     \<lparr>src_blobId = object_get (metadata c) (js ''blobId''),
      src_excerpt = slice (chunkText c) 0 200 @ (if length (chunkText c) > 200 then js ''...'' else []),
      src_chunkIndex = chunkIndex c,
      src_score = score c\<rparr>"

definition build_context :: "scored_chunk list \<Rightarrow> jsstring" where
  "build_context cs =
     join [0x0A, 0x0A]
       (map (\<lambda>(c, i). js ''[Source '' @ decimal (i + 1) @ js '']: '' @ chunkText c)
            (zip cs [0..<length cs]))"

definition systemPrompt :: jsstring where
  "systemPrompt =
     js ''You are a helpful assistant that answers questions based on the provided document context.''
     @ [0x0A] @ js ''Use only the information from the context to answer the question.''
     @ [0x0A] @ js ''If the context doesn't contain enough information to answer the question, say so.''
     @ [0x0A] @ js ''Always cite your sources by referring to [Source N] when using information from the context.''"

definition userPrompt :: "jsstring \<Rightarrow> jsstring \<Rightarrow> jsstring" where
  "userPrompt context q =
     js ''Context:'' @ [0x0A] @ context @ [0x0A, 0x0A] @ js ''Question: '' @ q @ [0x0A, 0x0A]
     @ js ''Please provide a comprehensive answer based on the context above.''"

definition queryDocuments ::
  "env \<Rightarrow> RAGService \<Rightarrow> jsstring \<Rightarrow> jsstring list option \<Rightarrow> int option \<Rightarrow>
   (js_error + query_result) \<times> RAGService" where
  "queryDocuments ev this q documentIds k =
     (if \<not> available this then (Inl (Error msg_not_available), this)
      else
        (let k' = (case k of None \<Rightarrow> topK this | Some n \<Rightarrow> if n = 0 then topK this else n)
         in case getEmbedding ev this q of
              (Inl e, this') \<Rightarrow> (Inl e, this')
            | (Inr questionEmbedding, this') \<Rightarrow>
                (let cs = allChunks this' documentIds
                 in if length cs = 0 then
                      (Inr \<lparr>answer = no_documents_answer, sources = [], question = q\<rparr>, this')
                    else
                      (let top = topChunks ev questionEmbedding cs k';
                           usr = userPrompt (build_context top) q;
                           this'' = this'\<lparr>completionLog :=
                                      completionLog this' @ [(systemPrompt, usr)]\<rparr>
                       in case chat_completions_create ev (length (completionLog this'))
                                 systemPrompt usr (temperature this') of
                            Inl e \<Rightarrow> (Inl e, this'')
                          | Inr ans \<Rightarrow>
                              (Inr \<lparr>answer = ans, sources = map format_source top,
                                    question = q\<rparr>, this'')))))"

section \<open>A runtime for the examples\<close>

text \<open>
  The examples run on an ASCII-only decoder and lower-casing, a PDF parser that rejects
  its input, a sort that leaves a list as it is when the comparison does not order it,
  and a completion endpoint that always answers; the embedding endpoint is given with
  each example.
\<close>

definition ascii_decode :: "buffer \<Rightarrow> jsstring" where
  "ascii_decode bs = map ucast bs"

definition ascii_lower :: "jsstring \<Rightarrow> jsstring" where
  "ascii_lower s = map (\<lambda>c. if 0x41 \<le> c \<and> c \<le> 0x5A then c + 0x20 else c) s"

definition example_env :: "(nat \<Rightarrow> jsstring \<Rightarrow> js_error + jsnum list) \<Rightarrow> env" where
  "example_env emb =
     \<lparr>pdf = (\<lambda>content. Inl (Error (js ''Invalid PDF structure''))),
      toString_utf8 = ascii_decode, toLowerCase = ascii_lower,
      engine_sort = (\<lambda>xs. xs),
      embeddings_create = emb,
      chat_completions_create = (\<lambda>n sys usr temp. Inr (js ''answer''))\<rparr>"

definition bytes :: "string \<Rightarrow> buffer" where
  "bytes s = map of_char s"

text \<open>
  A chunk record as ingestion builds it (no caller metadata, file \<open>a.txt\<close>), and the
  default service holding a given store.
\<close>

definition example_chunk :: "nat \<Rightarrow> string \<Rightarrow> jsnum list \<Rightarrow> string \<Rightarrow> chunk" where
  "example_chunk i t emb doc =
     \<lparr>chunkIndex = i, chunkText = js t, embedding = emb,
      metadata = chunk_metadata [] (js ''a.txt'') (js doc)\<rparr>"

definition service_holding :: "(jsstring \<times> chunk list) list \<Rightarrow> RAGService" where
  "service_holding store = (new_RAGService default_config)\<lparr>vectorStore := store\<rparr>"

section \<open>Closed forms used in the proofs\<close>

text \<open>
  The window of index \<open>i\<close> counted from a start offset, and the number of windows
  that a text is cut into.
\<close>

definition window :: "int \<Rightarrow> int \<Rightarrow> jsstring \<Rightarrow> int \<Rightarrow> nat \<Rightarrow> jsstring" where
  "window S step txt start i =
     slice txt (start + int i * step) (min (start + int i * step + S) (int (length txt)))"

definition chunk_count :: "int \<Rightarrow> int \<Rightarrow> jsstring \<Rightarrow> nat" where
  "chunk_count S ov txt = nat \<lceil>real (length txt) / real_of_int (S - ov)\<rceil>"

text \<open>
  The records that the ingestion loop builds from the chunks and their embeddings, and
  the invariant of the store that claim C7 is about.
\<close>

fun chunk_records ::
  "(jsstring \<times> jsvalue) list \<Rightarrow> jsstring \<Rightarrow> jsstring \<Rightarrow> nat \<Rightarrow> jsstring list \<Rightarrow>
   jsnum list list \<Rightarrow> chunk list" where
  "chunk_records md filename blobId i (c # cs) (e # es) =
     \<lparr>chunkIndex = i, chunkText = c, embedding = e,
      metadata = chunk_metadata md filename blobId\<rparr>
     # chunk_records md filename blobId (Suc i) cs es"
| "chunk_records md filename blobId i _ _ = []"

definition nonempty_chunks :: "RAGService \<Rightarrow> bool" where
  "nonempty_chunks this \<longleftrightarrow>
     list_all (\<lambda>(docId, chunks). list_all (\<lambda>c. chunkText c \<noteq> []) chunks) (vectorStore this)"

text \<open>
  The number of results that a query asks for: the argument, or the configured default
  when the argument is \<open>null\<close> or zero (\<open>topK || this.topK\<close>).
\<close>

definition effective_topK :: "RAGService \<Rightarrow> int option \<Rightarrow> int" where
  "effective_topK this k =
     (case k of None \<Rightarrow> topK this | Some n \<Rightarrow> if n = 0 then topK this else n)"

text \<open>
  The smallest positive double, and the numbers that are a multiple of it: all doubles
  are, and so is every result of a rounding.
\<close>

definition smallest :: real where
  "smallest = 2 powi (- 1074)"

definition on_grid :: "jsnum \<Rightarrow> bool" where
  "on_grid v = (case v of Num y \<Rightarrow> (\<exists>k::int. y = of_int k * smallest) | _ \<Rightarrow> True)"

section \<open>Rounding\<close>


lemma round_half_even_of_int [simp]: "round_half_even (of_int k) = k"
  by (simp add: round_half_even_def)

lemma round_half_even_ge1: "1 \<le> x \<Longrightarrow> 1 \<le> round_half_even x"
proof -
  assume "1 \<le> x"
  then have "1 \<le> \<lfloor>x\<rfloor>" by (simp add: le_floor_iff)
  then show ?thesis by (simp add: round_half_even_def Let_def)
qed

lemma round_half_even_neg: "x < 0 \<Longrightarrow> round_half_even x \<le> 0"
proof -
  assume "x < 0"
  then have "\<lfloor>x\<rfloor> \<le> - 1" by (simp add: floor_le_iff)
  then show ?thesis by (simp add: round_half_even_def Let_def)
qed

lemma fl_0 [simp]: "fl 0 = Num 0"
  by (simp add: fl_def)

lemma ulp_exponent_1: "ulp_exponent 1 = - 52" "ulp_exponent (- 1) = - 52"
  by (simp_all add: ulp_exponent_def)

lemma fl_1 [simp]: "fl 1 = Num 1"
  by (simp add: fl_def ulp_exponent_1 Let_def round_half_even_def)

lemma fl_m1 [simp]: "fl (- 1) = Num (- 1)"
  by (simp add: fl_def ulp_exponent_1 Let_def round_half_even_def)


lemma smallest_pos: "0 < smallest"
  by (simp add: smallest_def del: power_int_numeral_neg_numeral)

lemma ulp_exponent_ge: "- 1074 \<le> ulp_exponent x"
  by (simp add: ulp_exponent_def)

lemma power_int_smallest:
  assumes "- 1074 \<le> e"
  shows "(2::real) powi e = of_int (2 ^ nat (e + 1074)) * smallest"
proof -
  have "(2::real) powi (e + 1074 + (- 1074)) = 2 powi (e + 1074) * 2 powi (- 1074)"
    by (rule power_int_add) simp
  moreover have "e + 1074 + (- 1074) = e" by simp
  moreover have "(2::real) powi (e + 1074) = of_int (2 ^ nat (e + 1074))"
    using assms by (simp add: power_int_def)
  ultimately show ?thesis by (simp only: smallest_def)
qed

lemma ulp_exponent_le:
  assumes "smallest \<le> z"
  shows "2 powi (ulp_exponent z) \<le> z"
proof -
  have z: "0 < z" using assms smallest_pos by linarith
  have "2 powr real_of_int \<lfloor>log 2 z\<rfloor> \<le> z"
    using floor_log_eq_powr_iff[of z 2 "\<lfloor>log 2 z\<rfloor>"] z by simp
  then have fl: "2 powi \<lfloor>log 2 z\<rfloor> \<le> z"
    by (simp add: powr_real_of_int')
  have "(2::real) powi (\<lfloor>log 2 z\<rfloor> - 52) \<le> 2 powi \<lfloor>log 2 z\<rfloor>"
    by (rule power_int_increasing) simp_all
  then have a: "2 powi (\<lfloor>log 2 z\<rfloor> - 52) \<le> z" using fl by linarith
  have b: "2 powi (- 1074) \<le> z" using assms by (simp only: smallest_def)
  show ?thesis
    unfolding ulp_exponent_def max_def using a b z by (simp only: abs_of_pos split: if_splits) simp
qed

lemma fl_on_grid: "on_grid (fl x)"
proof (cases "x = 0")
  case True
  then show ?thesis by (auto simp: on_grid_def intro: exI[of _ 0])
next
  case False
  define e where "e = ulp_exponent x"
  define m where "m = round_half_even (x / 2 powi e)"
  have "real_of_int m * 2 powi e = of_int (m * 2 ^ nat (e + 1074)) * smallest"
    using power_int_smallest[OF ulp_exponent_ge[of x]] by (simp add: e_def)
  then have "on_grid (Num (of_int m * 2 powi e))"
    unfolding on_grid_def by (auto simp del: of_int_mult of_int_power)
  then show ?thesis
    using False by (simp add: fl_def Let_def e_def m_def on_grid_def)
qed

lemma fl_positive:
  assumes "smallest \<le> z"
  shows "jless (Num 0) (fl z)"
proof -
  have z: "0 < z" using assms smallest_pos by linarith
  define e where "e = ulp_exponent z"
  have p: "0 < (2::real) powi e" by simp
  have "1 \<le> z / 2 powi e"
    using ulp_exponent_le[OF assms] p by (simp add: e_def pos_le_divide_eq)
  then have "1 \<le> round_half_even (z / 2 powi e)" by (rule round_half_even_ge1)
  then have "0 < real_of_int (round_half_even (z / 2 powi e)) * 2 powi e"
    using p by (simp add: zero_less_mult_iff)
  then show ?thesis using z by (simp add: fl_def Let_def e_def)
qed

lemma fl_negative:
  assumes "z < 0"
  shows "\<not> jless (Num 0) (fl z)"
proof -
  define e where "e = ulp_exponent z"
  have p: "0 < (2::real) powi e" by simp
  have "z / 2 powi e < 0" using assms p by (simp add: divide_neg_pos)
  then have "round_half_even (z / 2 powi e) \<le> 0" by (rule round_half_even_neg)
  then have "real_of_int (round_half_even (z / 2 powi e)) * 2 powi e \<le> 0"
    using p by (simp add: mult_le_0_iff)
  then show ?thesis using assms by (simp add: fl_def Let_def e_def)
qed

lemma compare_scores:
  assumes "a \<noteq> NaN" "b \<noteq> NaN" and "on_grid a" "on_grid b"
  shows "jless (Num 0) (jsub b a) = jless a b"
proof (cases a; cases b)
  fix x y assume ab: "a = Num x" "b = Num y"
  obtain kx ky :: int where k: "x = of_int kx * smallest" "y = of_int ky * smallest"
    using assms(3,4) ab by (auto simp: on_grid_def)
  have sub: "jsub b a = fl (y - x)" by (simp add: ab jsub_def)
  consider "x < y" | "x = y" | "y < x" by linarith
  then show ?thesis
  proof cases
    case 1
    have "kx < ky" using 1 k smallest_pos by (simp add: mult_less_cancel_right)
    then have "1 \<le> ky - kx" by simp
    then have "1 \<le> real_of_int (ky - kx)" by (simp only: of_int_1_le_iff)
    then have "1 * smallest \<le> real_of_int (ky - kx) * smallest"
      using smallest_pos by (intro mult_right_mono) simp_all
    then have "smallest \<le> y - x" by (simp add: k algebra_simps)
    then have "jless (Num 0) (fl (y - x))" by (rule fl_positive)
    then show ?thesis unfolding sub using 1 by (simp add: ab)
  next
    case 2
    then show ?thesis unfolding sub by (simp add: ab)
  next
    case 3
    then have "y - x < 0" by simp
    then have "\<not> jless (Num 0) (fl (y - x))" by (rule fl_negative)
    then show ?thesis unfolding sub using 3 by (simp add: ab)
  qed
qed (use assms in \<open>simp_all add: jsub_def\<close>)

lemma jdiv_on_grid: "on_grid (jdiv u v)"
proof (cases u; cases v)
  fix x y assume "u = Num x" "v = Num y"
  then show ?thesis using fl_on_grid[of "x / y"] by (auto simp: on_grid_def)
next
  fix x assume "u = Num x" "v = PInf"
  then show ?thesis by (auto simp: on_grid_def intro: exI[of _ 0])
next
  fix x assume "u = Num x" "v = NInf"
  then show ?thesis by (auto simp: on_grid_def intro: exI[of _ 0])
qed (simp_all add: on_grid_def)

lemma cosineSimilarity_on_grid: "on_grid (cosineSimilarity a b)"
  by (simp add: cosineSimilarity_def jdiv_on_grid split: prod.splits)

lemma round_half_even_unique:
  assumes "\<bar>x - of_int m\<bar> < 1 / 2"
  shows "round_half_even x = m"
proof (cases "of_int m \<le> x")
  case True
  then have "\<lfloor>x\<rfloor> = m" using assms by (intro floor_unique) auto
  then show ?thesis using assms True by (simp add: round_half_even_def Let_def)
next
  case False
  then have "\<lfloor>x\<rfloor> = m - 1" using assms by (intro floor_unique) auto
  then show ?thesis using assms False by (simp add: round_half_even_def Let_def)
qed

lemma ulp_exponent_eq:
  assumes "2 powi k \<le> \<bar>x\<bar>" and "\<bar>x\<bar> < 2 powi (k + 1)" and "- 1022 \<le> k"
  shows "ulp_exponent x = k - 52"
proof -
  have pos: "0 < \<bar>x\<bar>" using assms(1) by (rule less_le_trans[rotated]) simp
  have "2 powr real_of_int k \<le> \<bar>x\<bar>" "\<bar>x\<bar> < 2 powr (real_of_int k + 1)"
    using assms(1,2) powr_real_of_int'[of 2 k] powr_real_of_int'[of 2 "k + 1"]
    by (simp_all add: add.commute)
  then have "\<lfloor>log 2 \<bar>x\<bar>\<rfloor> = k"
    using floor_log_eq_powr_iff[of "\<bar>x\<bar>" 2 k] pos by simp
  then show ?thesis using assms(3) by (simp add: ulp_exponent_def)
qed

lemma fl_eq:
  assumes "2 powi k \<le> \<bar>x\<bar>" and "\<bar>x\<bar> < 2 powi (k + 1)" and "- 1022 \<le> k"
    and "\<bar>x / 2 powi (k - 52) - of_int m\<bar> < 1 / 2"
    and "\<bar>real_of_int m * 2 powi (k - 52)\<bar> < 2 ^ 1024"
  shows "fl x = Num (of_int m * 2 powi (k - 52))"
proof -
  have "0 < \<bar>x\<bar>" using assms(1) by (rule less_le_trans[rotated]) simp
  then have "x \<noteq> 0" by simp
  moreover have "round_half_even (x / 2 powi (k - 52)) = m"
    using assms(4) by (rule round_half_even_unique)
  ultimately show ?thesis
    using assms(5) by (simp add: fl_def Let_def ulp_exponent_eq[OF assms(1-3)])
qed

lemma fl_of_int:
  assumes "\<bar>n\<bar> < 2 ^ 53"
  shows "fl (of_int n) = Num (of_int n)"
proof (cases "n = 0")
  case True
  then show ?thesis by simp
next
  case False
  define e where "e = ulp_exponent (of_int n)"
  define j where "j = nat (- e)"
  have n: "1 \<le> \<bar>real_of_int n\<bar>" using False by (simp flip: of_int_abs)
  have "\<bar>real_of_int n\<bar> < 2 ^ 53" using assms by (simp flip: of_int_abs)
  then have "\<bar>real_of_int n\<bar> < 2 powr 53" by simp
  then have "log 2 \<bar>real_of_int n\<bar> < 53" using n by (simp add: log_less_iff)
  then have "\<lfloor>log 2 \<bar>real_of_int n\<bar>\<rfloor> < 53" by (simp add: floor_less_iff)
  then have e: "e \<le> 0" "- 1074 \<le> e" by (simp_all add: e_def ulp_exponent_def)
  have p: "(2::real) powi e = inverse (2 ^ j)"
    using e(1) by (cases "e = 0") (simp_all add: power_int_def j_def power_one_over inverse_eq_divide)
  have "real_of_int n / 2 powi e = of_int (n * 2 ^ j)" by (simp add: p divide_inverse)
  then have r: "round_half_even (real_of_int n / 2 powi e) = n * 2 ^ j"
    by (simp only: round_half_even_of_int)
  have y: "real_of_int (n * 2 ^ j) * 2 powi e = of_int n" by (simp add: p divide_inverse)
  have "\<bar>real_of_int n\<bar> < 2 ^ 1024"
    using \<open>\<bar>real_of_int n\<bar> < 2 ^ 53\<close> by (rule less_trans) simp
  then show ?thesis
    using False unfolding fl_def Let_def e_def[symmetric] r y by simp
qed

lemma fl_numeral [simp]:
  "(numeral w :: int) < 2 ^ 53 \<Longrightarrow> fl (numeral w) = Num (numeral w)"
  using fl_of_int[of "numeral w"] by simp

text \<open>
  Two similarities as the program computes them: the rounded square root of 2, squared
  and rounded, is above 2, so the similarity of \<open>[1, 1]\<close> to itself is \<open>1 - 2^-52\<close>,
  below the similarity of \<open>[1, 1]\<close> to \<open>[3, 3]\<close>, which is 1.
\<close>

lemma sqrt_2_bounds:
  "12738103345051545 / 2 ^ 53 < sqrt 2" "sqrt 2 < 12738103345051547 / 2 ^ 53"
proof -
  have "(12738103345051545::real)\<^sup>2 < 2 * (2 ^ 53)\<^sup>2" by simp
  then have "(12738103345051545 / 2 ^ 53 :: real)\<^sup>2 < 2" by (simp add: power_divide)
  then show "12738103345051545 / 2 ^ 53 < sqrt 2" by (rule real_less_rsqrt)
  have "2 * (2 ^ 53)\<^sup>2 < (12738103345051547::real)\<^sup>2" by simp
  then have "2 < (12738103345051547 / 2 ^ 53 :: real)\<^sup>2" by (simp add: power_divide)
  then show "sqrt 2 < 12738103345051547 / 2 ^ 53" by (intro real_less_lsqrt) simp_all
qed

lemma abs_half:
  fixes y m :: real
  assumes "m - 1 / 2 < y" and "y < m + 1 / 2"
  shows "\<bar>y - m\<bar> < 1 / 2"
  using assms by linarith

lemma fl_sqrt_2: "fl (sqrt 2) = Num (6369051672525773 / 2 ^ 52)"
proof -
  note sqrt_2_bounds
  then have lo: "6369051672525773 - 1 / 2 < sqrt 2 * 2 ^ 52"
    and hi: "sqrt 2 * 2 ^ 52 < 6369051672525773 + 1 / 2"
    by (simp_all add: field_simps)
  have p: "(2::real) powi (0 - 52) = 1 / 2 ^ 52" by (simp add: inverse_eq_divide)
  have a: "2 powi 0 \<le> \<bar>sqrt 2\<bar>" by simp
  have "sqrt 2 < 2" using sqrt_2_bounds(2) by simp
  then have b: "\<bar>sqrt 2\<bar> < 2 powi (0 + 1)" by simp
  have q: "sqrt 2 / 2 powi (0 - 52) = sqrt 2 * 2 ^ 52" unfolding p by simp
  have c: "\<bar>sqrt 2 / 2 powi (0 - 52) - of_int 6369051672525773\<bar> < 1 / 2"
    unfolding q of_int_numeral by (rule abs_half[OF lo hi])
  have d: "\<bar>real_of_int 6369051672525773 * 2 powi (0 - 52)\<bar> < 2 ^ 1024"
    unfolding p by simp
  have "fl (sqrt 2) = Num (of_int 6369051672525773 * 2 powi (0 - 52))"
    by (rule fl_eq[OF a b _ c d]) simp
  then show ?thesis unfolding p by simp
qed


lemma sqrt_18_bounds:
  "9553577508788657 / 2 ^ 51 < sqrt 18" "sqrt 18 < 9553577508788659 / 2 ^ 51"
proof -
  have "(9553577508788657::real)\<^sup>2 < 18 * (2 ^ 51)\<^sup>2" by simp
  then have "(9553577508788657 / 2 ^ 51 :: real)\<^sup>2 < 18" by (simp add: power_divide)
  then show "9553577508788657 / 2 ^ 51 < sqrt 18" by (rule real_less_rsqrt)
  have "18 * (2 ^ 51)\<^sup>2 < (9553577508788659::real)\<^sup>2" by simp
  then have "18 < (9553577508788659 / 2 ^ 51 :: real)\<^sup>2" by (simp add: power_divide)
  then show "sqrt 18 < 9553577508788659 / 2 ^ 51" by (intro real_less_lsqrt) simp_all
qed

lemma fl_sqrt_18: "fl (sqrt 18) = Num (4776788754394329 / 2 ^ 50)"
proof -
  note sqrt_18_bounds
  then have lo: "4776788754394329 - 1 / 2 < sqrt 18 * 2 ^ 50"
    and hi: "sqrt 18 * 2 ^ 50 < 4776788754394329 + 1 / 2"
    by (simp_all add: field_simps)
  have p: "(2::real) powi (2 - 52) = 1 / 2 ^ 50" by (simp add: inverse_eq_divide)
  have "4 < sqrt 18" "sqrt 18 < 8" using sqrt_18_bounds by simp_all
  then have a: "2 powi 2 \<le> \<bar>sqrt 18\<bar>" and b: "\<bar>sqrt 18\<bar> < 2 powi (2 + 1)" by simp_all
  have q: "sqrt 18 / 2 powi (2 - 52) = sqrt 18 * 2 ^ 50" unfolding p by simp
  have c: "\<bar>sqrt 18 / 2 powi (2 - 52) - of_int 4776788754394329\<bar> < 1 / 2"
    unfolding q of_int_numeral by (rule abs_half[OF lo hi])
  have d: "\<bar>real_of_int 4776788754394329 * 2 powi (2 - 52)\<bar> < 2 ^ 1024"
    unfolding p by simp
  have "fl (sqrt 18) = Num (of_int 4776788754394329 * 2 powi (2 - 52))"
    by (rule fl_eq[OF a b _ c d]) simp
  then show ?thesis unfolding p by simp
qed

lemma fl_sqrt_2_squared:
  "fl (6369051672525773 / 2 ^ 52 * (6369051672525773 / 2 ^ 52)) = Num (4503599627370497 / 2 ^ 51)"
proof -
  let ?x = "6369051672525773 / 2 ^ 52 * (6369051672525773 / 2 ^ 52) :: real"
  have p: "(2::real) powi (1 - 52) = 1 / 2 ^ 51" by (simp add: inverse_eq_divide)
  have a: "2 powi 1 \<le> \<bar>?x\<bar>" and b: "\<bar>?x\<bar> < 2 powi (1 + 1)" by simp_all
  have c: "\<bar>?x / 2 powi (1 - 52) - of_int 4503599627370497\<bar> < 1 / 2"
    unfolding p by simp
  have d: "\<bar>real_of_int 4503599627370497 * 2 powi (1 - 52)\<bar> < 2 ^ 1024"
    unfolding p by simp
  have "fl ?x = Num (of_int 4503599627370497 * 2 powi (1 - 52))"
    by (rule fl_eq[OF a b _ c d]) simp
  then show ?thesis unfolding p by simp
qed

lemma fl_2_div:
  "fl (2 / (4503599627370497 / 2 ^ 51)) = Num (9007199254740990 / 2 ^ 53)"
proof -
  let ?x = "2 / (4503599627370497 / 2 ^ 51) :: real"
  have p: "(2::real) powi (- 1 - 52) = 1 / 2 ^ 53" by (simp add: inverse_eq_divide)
  have a: "2 powi (- 1) \<le> \<bar>?x\<bar>" and b: "\<bar>?x\<bar> < 2 powi (- 1 + 1)" by simp_all
  have c: "\<bar>?x / 2 powi (- 1 - 52) - of_int 9007199254740990\<bar> < 1 / 2"
    unfolding p by simp
  have d: "\<bar>real_of_int 9007199254740990 * 2 powi (- 1 - 52)\<bar> < 2 ^ 1024"
    unfolding p by simp
  have "fl ?x = Num (of_int 9007199254740990 * 2 powi (- 1 - 52))"
    by (rule fl_eq[OF a b _ c d]) simp
  then show ?thesis unfolding p by simp
qed

lemma fl_sqrt_2_times_sqrt_18:
  "fl (6369051672525773 / 2 ^ 52 * (4776788754394329 / 2 ^ 50)) = Num 6"
proof -
  let ?x = "6369051672525773 / 2 ^ 52 * (4776788754394329 / 2 ^ 50) :: real"
  have p: "(2::real) powi (2 - 52) = 1 / 2 ^ 50" by (simp add: inverse_eq_divide)
  have a: "2 powi 2 \<le> \<bar>?x\<bar>" and b: "\<bar>?x\<bar> < 2 powi (2 + 1)" by simp_all
  have c: "\<bar>?x / 2 powi (2 - 52) - of_int 6755399441055744\<bar> < 1 / 2"
    unfolding p by simp
  have d: "\<bar>real_of_int 6755399441055744 * 2 powi (2 - 52)\<bar> < 2 ^ 1024"
    unfolding p by simp
  have "fl ?x = Num (of_int 6755399441055744 * 2 powi (2 - 52))"
    by (rule fl_eq[OF a b _ c d]) simp
  then show ?thesis unfolding p by simp
qed

lemma cosineSimilarity_parallel_same:
  "cosineSimilarity [Num 1, Num 1] [Num 1, Num 1] = Num (1 - 1 / 2 ^ 52)"
proof -
  have fold: "foldl (cosine_step [Num 1, Num 1] [Num 1, Num 1]) (Num 0, Num 0, Num 0)
                [0..<length [Num 1, Num 1 :: jsnum]] = (Num 2, Num 2, Num 2)"
    by (simp add: cosine_step_def elem_def upt_rec)
  have s: "jsqrt (Num 2) = Num (6369051672525773 / 2 ^ 52)"
    by (simp add: fl_sqrt_2)
  have m: "jmul (Num (6369051672525773 / 2 ^ 52)) (Num (6369051672525773 / 2 ^ 52))
           = Num (4503599627370497 / 2 ^ 51)"
    by (simp only: jmul.simps fl_sqrt_2_squared)
  have nz: "4503599627370497 / 2 ^ 51 \<noteq> (0::real)" by simp
  have d: "jdiv (Num 2) (Num (4503599627370497 / 2 ^ 51)) = Num (9007199254740990 / 2 ^ 53)"
    by (simp only: jdiv.simps nz if_False fl_2_div)
  have "cosineSimilarity [Num 1, Num 1] [Num 1, Num 1] = Num (9007199254740990 / 2 ^ 53)"
    unfolding cosineSimilarity_def fold by (simp only: prod.case s m d)
  then show ?thesis by simp
qed

lemma cosineSimilarity_parallel_longer:
  "cosineSimilarity [Num 1, Num 1] [Num 3, Num 3] = Num 1"
proof -
  have fold: "foldl (cosine_step [Num 1, Num 1] [Num 3, Num 3]) (Num 0, Num 0, Num 0)
                [0..<length [Num 1, Num 1 :: jsnum]] = (Num 6, Num 2, Num 18)"
    by (simp add: cosine_step_def elem_def upt_rec)
  have s: "jsqrt (Num 2) = Num (6369051672525773 / 2 ^ 52)"
    "jsqrt (Num 18) = Num (4776788754394329 / 2 ^ 50)"
    by (simp_all add: fl_sqrt_2 fl_sqrt_18)
  have m: "jmul (Num (6369051672525773 / 2 ^ 52)) (Num (4776788754394329 / 2 ^ 50)) = Num 6"
    by (simp only: jmul.simps fl_sqrt_2_times_sqrt_18)
  have d: "jdiv (Num 6) (Num 6) = Num 1" by simp
  show ?thesis
    unfolding cosineSimilarity_def fold by (simp only: prod.case s m d)
qed

text \<open>
  And an overflow: the square of \<open>2^600\<close> is an infinity, and the similarity of
  \<open>[2^600]\<close> to itself, a quotient of two infinities, is \<open>NaN\<close>.
\<close>

lemma fl_overflow: "fl (2 ^ 600 * 2 ^ 600) = PInf"
proof -
  have e: "ulp_exponent (2 ^ 600 * 2 ^ 600) = 1200 - 52"
    by (rule ulp_exponent_eq) simp_all
  have r: "round_half_even (2 ^ 600 * 2 ^ 600 / 2 powi (1200 - 52)) = 2 ^ 52"
    by (rule round_half_even_unique) simp
  show ?thesis
    unfolding fl_def Let_def e r by simp
qed

lemma cosineSimilarity_overflow: "cosineSimilarity [Num (2 ^ 600)] [Num (2 ^ 600)] = NaN"
proof -
  have "jmul (Num (2 ^ 600)) (Num (2 ^ 600)) = PInf"
    by (simp only: jmul.simps fl_overflow)
  then show ?thesis
    by (simp add: cosineSimilarity_def cosine_step_def elem_def)
qed

lemma round_half_even_le_m1: "x \<le> - 1 \<Longrightarrow> round_half_even x \<le> - 1"
proof -
  assume x: "x \<le> - 1"
  then have f: "\<lfloor>x\<rfloor> \<le> - 1" by (simp add: floor_le_iff)
  show ?thesis
  proof (cases "\<lfloor>x\<rfloor> = - 1")
    case True
    then have "- 1 \<le> x" by (metis of_int_floor_le of_int_minus of_int_1)
    then have "x = - 1" using x by simp
    then show ?thesis using round_half_even_of_int[of "- 1"] by simp
  next
    case False
    then have "\<lfloor>x\<rfloor> \<le> - 2" using f by linarith
    then show ?thesis unfolding round_half_even_def Let_def by (simp split: if_splits del: floor_le_iff floor_less_iff floor_le_numeral floor_le_neg_numeral)
  qed
qed

lemma round_half_even_nonneg: "0 \<le> x \<Longrightarrow> 0 \<le> round_half_even x"
proof -
  assume "0 \<le> x"
  then have "0 \<le> \<lfloor>x\<rfloor>" by simp
  then show ?thesis by (simp add: round_half_even_def Let_def)
qed

lemma ulp_exponent_abs: "ulp_exponent \<bar>z\<bar> = ulp_exponent z"
  by (simp add: ulp_exponent_def)

lemma fl_below:
  assumes "z \<le> - smallest"
  shows "jless (fl z) (Num 0)"
proof -
  have z: "z < 0" "smallest \<le> \<bar>z\<bar>" using assms smallest_pos by linarith+
  define e where "e = ulp_exponent z"
  have p: "0 < (2::real) powi e" by simp
  have "2 powi e \<le> \<bar>z\<bar>"
    using ulp_exponent_le[OF z(2)] by (simp add: e_def ulp_exponent_abs)
  then have "2 powi e \<le> - z" using z(1) by simp
  then have "z / 2 powi e \<le> - 1" using p by (simp add: pos_divide_le_eq)
  then have "round_half_even (z / 2 powi e) \<le> - 1" by (rule round_half_even_le_m1)
  then have "real_of_int (round_half_even (z / 2 powi e)) \<le> - 1" by linarith
  then have "real_of_int (round_half_even (z / 2 powi e)) * 2 powi e < 0"
    using p by (simp add: mult_less_0_iff)
  then show ?thesis using z(1) by (simp add: fl_def Let_def e_def)
qed

lemma fl_not_below:
  assumes "0 \<le> z"
  shows "\<not> jless (fl z) (Num 0)"
proof (cases "z = 0")
  case True
  then show ?thesis by simp
next
  case False
  define e where "e = ulp_exponent z"
  have p: "0 < (2::real) powi e" by simp
  have "0 \<le> z / 2 powi e" using assms p by simp
  then have "0 \<le> round_half_even (z / 2 powi e)" by (rule round_half_even_nonneg)
  then have "0 \<le> real_of_int (round_half_even (z / 2 powi e)) * 2 powi e"
    using p by simp
  then show ?thesis using assms False by (simp add: fl_def Let_def e_def)
qed

lemma compare_scores_neg:
  assumes "a \<noteq> NaN" "b \<noteq> NaN" and "on_grid a" "on_grid b"
  shows "jless (jsub b a) (Num 0) = jless b a"
proof (cases a; cases b)
  fix x y assume ab: "a = Num x" "b = Num y"
  obtain kx ky :: int where k: "x = of_int kx * smallest" "y = of_int ky * smallest"
    using assms(3,4) ab by (auto simp: on_grid_def)
  have sub: "jsub b a = fl (y - x)" by (simp add: ab jsub_def)
  show ?thesis
  proof (cases "y < x")
    case True
    have "ky < kx" using True k smallest_pos by (simp add: mult_less_cancel_right)
    then have "1 \<le> kx - ky" by simp
    then have "1 \<le> real_of_int (kx - ky)" by (simp only: of_int_1_le_iff)
    then have "1 * smallest \<le> real_of_int (kx - ky) * smallest"
      using smallest_pos by (intro mult_right_mono) simp_all
    then have "y - x \<le> - smallest" by (simp add: k algebra_simps)
    then have "jless (fl (y - x)) (Num 0)" by (rule fl_below)
    then show ?thesis unfolding sub using True by (simp add: ab)
  next
    case False
    then have "0 \<le> y - x" by simp
    then have "\<not> jless (fl (y - x)) (Num 0)" by (rule fl_not_below)
    then show ?thesis unfolding sub using False by (simp add: ab)
  qed
qed (use assms in \<open>simp_all add: jsub_def\<close>)

section \<open>Arithmetic of the window count\<close>


lemma cdiv_nonpos: "0 < step \<Longrightarrow> x \<le> (0::int) \<Longrightarrow> (x + step - 1) div step \<le> 0"
  using pos_imp_zdiv_pos_iff[of step "x + step - 1"] by simp

lemma cdiv_one: "0 < x \<Longrightarrow> x \<le> step \<Longrightarrow> (x + step - 1) div step = (1::int)"
proof -
  assume a: "0 < x" "x \<le> step"
  have "(x + step - 1) div step = ((x - 1) + step) div step" by (simp add: algebra_simps)
  also have "\<dots> = (x - 1) div step + 1" using a by (subst div_add_self2) auto
  also have "(x - 1) div step = 0" using a by (intro div_pos_pos_trivial) auto
  finally show ?thesis by simp
qed

lemma cdiv_step: "0 < step \<Longrightarrow> (x + step - 1) div step = ((x - step) + step - 1) div step + (1::int)"
proof -
  assume a: "0 < step"
  have "(x + step - 1) div step = ((x - 1) + step) div step" by (simp add: algebra_simps)
  also have "\<dots> = (x - 1) div step + 1" using a by (subst div_add_self2) auto
  finally show ?thesis by (simp add: algebra_simps)
qed

lemma cdiv_nonneg: "0 < step \<Longrightarrow> 0 < x \<Longrightarrow> 0 \<le> (x + step - 1) div (step::int)"
  by (simp add: pos_imp_zdiv_nonneg_iff)

lemma cdiv_ceiling:
  assumes s: "0 < step"
  shows "(x + step - 1) div step = \<lceil>real_of_int x / real_of_int step\<rceil>"
proof -
  define q r where "q = (x + step - 1) div step" and "r = (x + step - 1) mod step"
  have eq: "x + step - 1 = q * step + r" by (simp add: q_def r_def)
  have r: "0 \<le> r" "r < step" using s by (simp_all add: r_def)
  have up: "x \<le> q * step" using eq r by linarith
  have lo: "(q - 1) * step < x" using eq r by (simp add: algebra_simps)
  have "\<lceil>real_of_int x / real_of_int step\<rceil> = q"
  proof (rule ceiling_unique)
    have "real_of_int ((q - 1) * step) < real_of_int x" using lo by (simp only: of_int_less_iff)
    then show "real_of_int q - 1 < real_of_int x / real_of_int step"
      using s by (simp add: pos_less_divide_eq)
    have "real_of_int x \<le> real_of_int (q * step)" using up by (simp only: of_int_le_iff)
    then show "real_of_int x / real_of_int step \<le> real_of_int q"
      using s by (simp add: pos_divide_le_eq)
  qed
  then show ?thesis by (simp add: q_def)
qed

lemma slice_window:
  assumes "0 < S" "0 \<le> a"
  shows "slice txt a (min (a + S) (int (length txt))) = take (nat S) (drop (nat a) txt)"
proof (cases "a < int (length txt)")
  case True
  define e where "e = min (a + S) (int (length txt))"
  have e: "0 \<le> e" "e \<le> int (length txt)" using assms by (simp_all add: e_def)
  have n: "nat (e - a) = min (nat S) (length (drop (nat a) txt))"
    using assms True by (simp add: e_def min_def) linarith
  have "slice txt a e = take (nat (e - a)) (drop (nat a) txt)"
    using assms True e by (simp add: slice_def Let_def min_def)
  also have "\<dots> = take (nat S) (drop (nat a) txt)"
    unfolding n by (simp add: min_def)
  finally show ?thesis by (simp add: e_def)
next
  case False
  then show ?thesis using assms by (simp add: slice_def Let_def min_def)
qed

lemma window_take_drop:
  assumes "0 < S" "0 \<le> step"
  shows "window S step txt 0 i = take (nat S) (drop (i * nat step) txt)"
proof -
  have "nat (int i * step) = i * nat step" using assms by (simp add: nat_mult_distrib)
  then show ?thesis using assms by (simp add: window_def slice_window)
qed


lemma chunk_loop_closed:
  assumes "0 < S - ov"
  shows "chunk_loop S ov txt acc start =
         Some (acc @ map (window S (S - ov) txt start)
                       [0..<nat ((int (length txt) - start + (S - ov) - 1) div (S - ov))])"
proof (induction "nat (int (length txt) - start)" arbitrary: start acc rule: less_induct)
  case less
  define L where "L = int (length txt)"
  define step where "step = S - ov"
  have step: "0 < step" using assms by (simp add: step_def)
  show ?case
  proof (cases "start < L")
    case False
    then have "(L - start + step - 1) div step \<le> 0"
      using step by (intro cdiv_nonpos) auto
    then show ?thesis using False
      by (subst chunk_loop.simps) (simp add: L_def step_def)
  next
    case True
    show ?thesis
    proof (cases "start + step \<ge> L")
      case stop: True
      have "(L - start + step - 1) div step = 1"
        using True stop by (intro cdiv_one) auto
      then show ?thesis using True stop
        by (subst chunk_loop.simps) (simp add: L_def step_def window_def Let_def)
    next
      case go: False
      have m: "nat (int (length txt) - (start + step)) < nat (int (length txt) - start)"
        using True step by (simp add: L_def)
      have cnt: "nat ((L - start + step - 1) div step)
                 = Suc (nat ((L - (start + step) + step - 1) div step))"
      proof -
        have "(L - start + step - 1) div step = (L - start - step + step - 1) div step + 1"
          using step by (rule cdiv_step)
        moreover have "0 \<le> (L - start - step + step - 1) div step"
          using go step by (intro cdiv_nonneg) auto
        moreover have "L - (start + step) = L - start - step" by simp
        ultimately show ?thesis by simp
      qed
      have sh: "map (window S step txt start) (map Suc [0..<n])
                = map (window S step txt (start + step)) [0..<n]" for n
        by (simp add: window_def algebra_simps)
      have "chunk_loop S ov txt acc start
            = chunk_loop S ov txt (acc @ [window S step txt start 0]) (start + step)"
        using True go
        by (subst chunk_loop.simps) (simp add: L_def step_def window_def Let_def)
      also have "\<dots> = Some ((acc @ [window S step txt start 0])
                   @ map (window S step txt (start + step))
                       [0..<nat ((L - (start + step) + step - 1) div step)])"
        using less[OF m] by (simp add: L_def step_def)
      also have "\<dots> = Some (acc @ map (window S step txt start)
                       [0..<nat ((L - start + step - 1) div step)])"
        unfolding cnt by (simp add: sh[symmetric] upt_conv_Cons map_Suc_upt del: upt_Suc)
      finally show ?thesis by (simp add: L_def step_def)
    qed
  qed
qed

lemma splitIntoChunks_closed:
  assumes "0 \<le> chunkOverlap this" "chunkOverlap this < chunkSize this"
  shows "splitIntoChunks this txt =
         Some (map (\<lambda>i. take (nat (chunkSize this))
                           (drop (i * nat (chunkSize this - chunkOverlap this)) txt))
                   [0..<chunk_count (chunkSize this) (chunkOverlap this) txt])"
proof -
  define S ov where "S = chunkSize this" and "ov = chunkOverlap this"
  have st: "0 < S - ov" "0 < S" "0 \<le> S - ov" using assms by (simp_all add: S_def ov_def)
  have "(int (length txt) - 0 + (S - ov) - 1) div (S - ov)
        = \<lceil>real_of_int (int (length txt)) / real_of_int (S - ov)\<rceil>"
    using cdiv_ceiling[OF st(1), of "int (length txt)"] by simp
  then have "chunk_loop S ov txt [] 0 =
         Some (map (window S (S - ov) txt 0) [0..<chunk_count S ov txt])"
    using chunk_loop_closed[OF st(1), of "txt" "[]" 0] by (simp add: chunk_count_def)
  moreover have "window S (S - ov) txt 0 = (\<lambda>i. take (nat S) (drop (i * nat (S - ov)) txt))"
    using window_take_drop[OF st(2) st(3)] by auto
  ultimately show ?thesis by (simp add: splitIntoChunks_def S_def ov_def)
qed

lemma chunk_count_bounds:
  assumes "0 < S - ov" "txt \<noteq> []"
  shows "0 < chunk_count S ov txt"
    and "(chunk_count S ov txt - 1) * nat (S - ov) < length txt"
    and "length txt \<le> chunk_count S ov txt * nat (S - ov)"
proof -
  define st where "st = nat (S - ov)"
  define c where "c = \<lceil>real (length txt) / real_of_int (S - ov)\<rceil>"
  have st: "0 < st" "real_of_int (S - ov) = real st" using assms by (simp_all add: st_def)
  have L: "0 < real (length txt)" using assms by simp
  have cpos: "0 < c" unfolding c_def using L st assms(1) by (simp add: ceiling_less_iff[symmetric] del: ceiling_less_zero) 
  show n: "0 < chunk_count S ov txt" using cpos by (simp add: chunk_count_def c_def)
  have nn: "real (chunk_count S ov txt) = real_of_int c" using cpos by (simp add: chunk_count_def c_def)
  have up: "real (length txt) / real st \<le> real_of_int c" unfolding c_def st(2) by (rule le_of_int_ceiling)
  have lo: "real_of_int c - 1 < real (length txt) / real st" unfolding c_def st(2) by linarith
  have "real (length txt) \<le> real (chunk_count S ov txt) * real st"
    using up st(1) by (simp add: nn pos_divide_le_eq)
  then show "length txt \<le> chunk_count S ov txt * nat (S - ov)"
    unfolding st_def[symmetric] by (metis of_nat_le_iff of_nat_mult)
  have "(real (chunk_count S ov txt) - 1) * real st < real (length txt)"
    using lo st(1) by (simp add: nn pos_less_divide_eq)
  then have "real ((chunk_count S ov txt - 1) * st) < real (length txt)"
    using n by simp
  then show "(chunk_count S ov txt - 1) * nat (S - ov) < length txt"
    unfolding st_def[symmetric] by (simp only: of_nat_less_iff)
qed


lemma overlap_removed_prefix:
  assumes "ov < s"
  shows "take s txt @ concat (map (\<lambda>i. drop ov (take s (drop (i * (s - ov)) txt))) [1..<Suc k])
         = take (k * (s - ov) + s) txt"
proof (induction k)
  case 0
  show ?case by simp
next
  case (Suc k)
  let ?f = "\<lambda>i. drop ov (take s (drop (i * (s - ov)) txt))"
  have off: "ov + Suc k * (s - ov) = k * (s - ov) + s" using assms by simp
  have piece: "?f (Suc k) = take (s - ov) (drop (k * (s - ov) + s) txt)"
    by (simp only: drop_take drop_drop off)
  have up: "[1..<Suc (Suc k)] = [1..<Suc k] @ [Suc k]" by simp
  have "take s txt @ concat (map ?f [1..<Suc (Suc k)])
        = (take s txt @ concat (map ?f [1..<Suc k])) @ ?f (Suc k)"
    by (simp only: up map_append concat_append list.map concat.simps append_Nil2 append_assoc)
  also have "\<dots> = take (k * (s - ov) + s) txt @ take (s - ov) (drop (k * (s - ov) + s) txt)"
    by (simp only: Suc piece)
  also have "\<dots> = take (k * (s - ov) + s + (s - ov)) txt"
    by (simp only: take_add)
  also have "k * (s - ov) + s + (s - ov) = Suc k * (s - ov) + s" by simp
  finally show ?case .
qed

section \<open>The chunker\<close>

text \<open>
  Claim C3, as amended. For a non-empty text of length \<open>L\<close> and a configuration with
  \<open>0 \<le> O < S\<close>, the chunker returns, and the number of chunks is
  \<open>ceil(L / (S - O))\<close> (not \<open>ceil((L - O) / (S - O))\<close>: the loop goes on while the
  next start offset lies inside the text, also when the previous window has already
  reached the end); the last chunk ends at offset \<open>L\<close>; and the first chunk followed by
  the other chunks without their first \<open>O\<close> code units is the text.
\<close>

theorem splitIntoChunks_count_end_reconstruct:
  assumes "0 \<le> chunkOverlap this" and "chunkOverlap this < chunkSize this" and "txt \<noteq> []"
  shows "\<exists>chunks. splitIntoChunks this txt = Some chunks
           \<and> int (length chunks)
               = \<lceil>real (length txt) / real_of_int (chunkSize this - chunkOverlap this)\<rceil>
           \<and> (length chunks - 1) * nat (chunkSize this - chunkOverlap this)
               + length (last chunks) = length txt
           \<and> hd chunks @ concat (map (drop (nat (chunkOverlap this))) (tl chunks)) = txt"
proof -
  define s ov st where "s = nat (chunkSize this)" and "ov = nat (chunkOverlap this)"
    and "st = nat (chunkSize this - chunkOverlap this)"
  define n where "n = chunk_count (chunkSize this) (chunkOverlap this) txt"
  define c where "c = (\<lambda>i. take s (drop (i * st) txt))"
  have st: "st = s - ov" "ov < s" "0 < st"
    using assms by (simp_all add: s_def ov_def st_def nat_diff_distrib)
  have pos: "0 < chunkSize this - chunkOverlap this" using assms by simp
  have n: "0 < n" "(n - 1) * st < length txt" "length txt \<le> n * st"
    using chunk_count_bounds[OF pos assms(3)] by (simp_all add: n_def st_def)
  have split: "splitIntoChunks this txt = Some (map c [0..<n])"
    using splitIntoChunks_closed[OF assms(1,2)] by (simp add: c_def n_def s_def st_def)
  have cnt: "int (length (map c [0..<n]))
             = \<lceil>real (length txt) / real_of_int (chunkSize this - chunkOverlap this)\<rceil>"
    using n(1) by (simp add: n_def chunk_count_def)
  have lst: "last (map c [0..<n]) = c (n - 1)"
    using n(1) by (cases n) (simp_all add: last_map)
  have "n * st \<le> (n - 1) * st + s" using n(1) st by (cases n) simp_all
  then have fit: "length txt - (n - 1) * st \<le> s" using n(3) by linarith
  have "length (c (n - 1)) = length txt - (n - 1) * st"
    using fit by (simp add: c_def)
  then have "(n - 1) * st + length (last (map c [0..<n])) = length txt"
    using n(2) by (simp only: lst)
  then have endoff: "(length (map c [0..<n]) - 1) * st + length (last (map c [0..<n])) = length txt"
    by simp
  have hd0: "hd (map c [0..<n]) = take s txt"
    using n(1) by (cases n) (simp_all add: c_def upt_conv_Cons del: upt_Suc)
  have tl0: "tl (map c [0..<n]) = map c [1..<Suc (n - 1)]"
    using n(1) by (cases n) (simp_all add: upt_conv_Cons map_tl del: upt_Suc)
  have "hd (map c [0..<n]) @ concat (map (drop ov) (tl (map c [0..<n])))
        = take ((n - 1) * (s - ov) + s) txt"
    unfolding hd0 tl0 using overlap_removed_prefix[OF st(2), of "txt" "n - 1"]
    by (simp add: c_def st(1) comp_def)
  also have "\<dots> = txt"
    using n(3) \<open>n * st \<le> (n - 1) * st + s\<close> by (simp add: st(1))
  finally have recon: "hd (map c [0..<n]) @ concat (map (drop ov) (tl (map c [0..<n]))) = txt" .
  show ?thesis
    using split cnt endoff recon by (auto simp: st_def ov_def)
qed


text \<open>
  Claim C2, as amended. For a non-empty text and a configuration with \<open>0 \<le> O < S\<close>,
  the chunker produces exactly one chunk, equal to the whole text, if and only if the
  length of the text is at most \<open>S - O\<close>. A text longer than \<open>S - O\<close>, also one that
  is no longer than the chunk size \<open>S\<close>, is cut into more than one chunk.
\<close>

theorem splitIntoChunks_single_iff:
  assumes "0 \<le> chunkOverlap this" and "chunkOverlap this < chunkSize this" and "txt \<noteq> []"
  shows "splitIntoChunks this txt = Some [txt]
         \<longleftrightarrow> int (length txt) \<le> chunkSize this - chunkOverlap this"
proof -
  define s st where "s = nat (chunkSize this)"
    and "st = nat (chunkSize this - chunkOverlap this)"
  define n where "n = chunk_count (chunkSize this) (chunkOverlap this) txt"
  define c where "c = (\<lambda>i. take s (drop (i * st) txt))"
  have st: "st \<le> s" "0 < st"
    using assms by (simp_all add: s_def st_def)
  have pos: "0 < chunkSize this - chunkOverlap this" using assms by simp
  have n: "0 < n" "(n - 1) * st < length txt" "length txt \<le> n * st"
    using chunk_count_bounds[OF pos assms(3)] by (simp_all add: n_def st_def)
  have split: "splitIntoChunks this txt = Some (map c [0..<n])"
    using splitIntoChunks_closed[OF assms(1,2)] by (simp add: c_def n_def s_def st_def)
  have le: "int (length txt) \<le> chunkSize this - chunkOverlap this \<longleftrightarrow> length txt \<le> st"
    using pos unfolding st_def by linarith
  show ?thesis
  proof
    assume "splitIntoChunks this txt = Some [txt]"
    then have "length (map c [0..<n]) = length [txt]" using split by simp
    then have "n = 1" by simp
    then show "int (length txt) \<le> chunkSize this - chunkOverlap this"
      using n(3) le by simp
  next
    assume "int (length txt) \<le> chunkSize this - chunkOverlap this"
    then have L: "length txt \<le> st" using le by simp
    have "n = 1"
    proof (rule ccontr)
      assume "n \<noteq> 1"
      then have "2 \<le> n" using n(1) by simp
      then have "1 \<le> n - 1" by simp
      then have "1 * st \<le> (n - 1) * st" by (rule mult_le_mono1)
      then show False using n(2) L by linarith
    qed
    then show "splitIntoChunks this txt = Some [txt]"
      using split L st(1) by (simp add: c_def)
  qed
qed

text \<open>Size 4 and overlap 2: a text of two code units is one chunk.\<close>

theorem splitIntoChunks_single_iff_witness:
  "splitIntoChunks (service_with 4 2) (js ''ab'') = Some [js ''ab'']"
  using splitIntoChunks_single_iff[of "service_with 4 2" "js ''ab''"]
  by (simp add: service_with_def new_RAGService_def default_config_def js_def)

text \<open>
  Claim C2 as stated fails: with size 4 and overlap 2, a text of three code units, which
  is shorter than the chunk size, gives two chunks.
\<close>

theorem splitIntoChunks_single_counterexample:
  "0 < length (js ''abc'') \<and> int (length (js ''abc'')) \<le> chunkSize (service_with 4 2)
   \<and> splitIntoChunks (service_with 4 2) (js ''abc'') = Some [js ''abc'', js ''c'']"
  by (simp add: service_with_def new_RAGService_def default_config_def js_def
      splitIntoChunks_def chunk_loop.simps slice_def)

text \<open>
  Claim C3 as stated fails: with size 4 and overlap 2, a text of five code units gives
  three chunks, and \<open>ceil((5 - 2) / (4 - 2))\<close> is two.
\<close>

theorem splitIntoChunks_count_counterexample:
  "splitIntoChunks (service_with 4 2) (js ''abcde'') = Some [js ''abcd'', js ''cde'', js ''e'']
   \<and> \<lceil>real_of_int (int (length (js ''abcde'')) - chunkOverlap (service_with 4 2))
        / real_of_int (chunkSize (service_with 4 2) - chunkOverlap (service_with 4 2))\<rceil> = 2"
  by (simp add: service_with_def new_RAGService_def default_config_def js_def
      splitIntoChunks_def chunk_loop.simps slice_def)

text \<open>
  The default configuration on a text of 2500 code units: four chunks, the last one of
  100 code units.
\<close>

theorem splitIntoChunks_count_end_reconstruct_witness:
  "\<exists>chunks. splitIntoChunks (new_RAGService default_config) (replicate 2500 0x61) = Some chunks
     \<and> length chunks = 4
     \<and> 3 * 800 + length (last chunks) = 2500
     \<and> hd chunks @ concat (map (drop 200) (tl chunks)) = replicate 2500 0x61"
proof -
  have "0 \<le> chunkOverlap (new_RAGService default_config)"
    and "chunkOverlap (new_RAGService default_config) < chunkSize (new_RAGService default_config)"
    and "replicate 2500 (0x61 :: 16 word) \<noteq> []"
    by (simp_all add: new_RAGService_def default_config_def)
  from splitIntoChunks_count_end_reconstruct[OF this]
  obtain chunks where
    "splitIntoChunks (new_RAGService default_config) (replicate 2500 0x61) = Some chunks"
    "int (length chunks) = \<lceil>real (length (replicate 2500 (0x61 :: 16 word)))
        / real_of_int (chunkSize (new_RAGService default_config)
                       - chunkOverlap (new_RAGService default_config))\<rceil>"
    "(length chunks - 1) * nat (chunkSize (new_RAGService default_config)
                                - chunkOverlap (new_RAGService default_config))
       + length (last chunks) = length (replicate 2500 (0x61 :: 16 word))"
    "hd chunks @ concat (map (drop (nat (chunkOverlap (new_RAGService default_config))))
                             (tl chunks)) = replicate 2500 0x61"
    by blast
  then show ?thesis
    by (intro exI[of _ chunks]) (simp add: new_RAGService_def default_config_def)
qed

section \<open>The embedding loop\<close>

lemma getEmbedding_unavailable:
  "\<not> available this \<Longrightarrow> getEmbedding ev this t = (Inl (Error msg_not_available), this)"
  by (simp add: getEmbedding_def)

lemma getEmbedding_available:
  "available this \<Longrightarrow>
   getEmbedding ev this t =
     (embeddings_create ev (length (embeddingLog this)) t,
      this\<lparr>embeddingLog := embeddingLog this @ [t]\<rparr>)"
  by (simp add: getEmbedding_def)

lemma embed_loop_store:
  "embed_loop ev this b f md cs i acc = (res, this') \<Longrightarrow>
   vectorStore this' = vectorStore this \<and> available this' = available this
   \<and> chunkSize this' = chunkSize this \<and> chunkOverlap this' = chunkOverlap this
   \<and> completionLog this' = completionLog this"
proof (induction cs arbitrary: this i acc)
  case Nil
  then show ?case by simp
next
  case (Cons c cs)
  show ?case
  proof (cases "getEmbedding ev this c")
    case (Pair r this1)
    have f: "vectorStore this1 = vectorStore this \<and> available this1 = available this
      \<and> chunkSize this1 = chunkSize this \<and> chunkOverlap this1 = chunkOverlap this
      \<and> completionLog this1 = completionLog this"
      using Pair by (auto simp: getEmbedding_def split: if_splits)
    show ?thesis
    proof (cases r)
      case (Inl e)
      then show ?thesis using Cons.prems Pair f by simp
    next
      case (Inr emb)
      then show ?thesis using Cons.prems Pair f Cons.IH[of this1 "Suc i"] by simp
    qed
  qed
qed

lemma embed_loop_fails:
  assumes "available this" and "j < length cs"
    and "embeddings_create ev (length (embeddingLog this) + j) (cs ! j) = Inl e"
  shows "\<exists>e' this'. embed_loop ev this b f md cs i acc = (Inl e', this')"
  using assms
proof (induction cs arbitrary: this i acc j)
  case Nil
  then show ?case by simp
next
  case (Cons c cs)
  let ?this1 = "this\<lparr>embeddingLog := embeddingLog this @ [c]\<rparr>"
  show ?case
  proof (cases "embeddings_create ev (length (embeddingLog this)) c")
    case (Inl e0)
    then show ?thesis using Cons.prems(1) by (simp add: getEmbedding_available)
  next
    case (Inr emb)
    then obtain j' where j: "j = Suc j'" using Cons.prems by (cases j) auto
    have "\<exists>e' this'. embed_loop ev ?this1 b f md cs (Suc i)
             (acc @ [\<lparr>chunkIndex = i, chunkText = c, embedding = emb,
                     metadata = chunk_metadata md f b\<rparr>]) = (Inl e', this')"
      using Cons.prems j by (intro Cons.IH[of ?this1 j']) auto
    then show ?thesis using Inr Cons.prems(1) by (simp add: getEmbedding_available)
  qed
qed

lemma embed_loop_Inl:
  assumes "available this" and "embed_loop ev this b f md cs i acc = (Inl e, this')"
  shows "\<exists>j<length cs. embeddings_create ev (length (embeddingLog this) + j) (cs ! j) = Inl e"
  using assms
proof (induction cs arbitrary: this i acc)
  case Nil
  then show ?case by simp
next
  case (Cons c cs)
  let ?this1 = "this\<lparr>embeddingLog := embeddingLog this @ [c]\<rparr>"
  show ?case
  proof (cases "embeddings_create ev (length (embeddingLog this)) c")
    case (Inl e0)
    then have "e0 = e" using Cons.prems by (simp add: getEmbedding_available)
    then show ?thesis using Inl by (intro exI[of _ 0]) simp
  next
    case (Inr emb)
    then have "\<exists>j<length cs. embeddings_create ev (length (embeddingLog ?this1) + j) (cs ! j) = Inl e"
      using Cons.prems by (intro Cons.IH[of ?this1 "Suc i"]) (auto simp: getEmbedding_available)
    then obtain j where "j < length cs"
      "embeddings_create ev (length (embeddingLog this) + Suc j) ((c # cs) ! Suc j) = Inl e"
      by auto
    then show ?thesis by (intro exI[of _ "Suc j"]) simp
  qed
qed


lemma chunk_records_texts:
  "length es = length cs \<Longrightarrow> map chunkText (chunk_records md f b i cs es) = cs"
  by (induction md f b i cs es rule: chunk_records.induct) auto

lemma chunk_records_length:
  "length es = length cs \<Longrightarrow> length (chunk_records md f b i cs es) = length cs"
  by (induction md f b i cs es rule: chunk_records.induct) auto

lemma embed_loop_Inr:
  assumes "embed_loop ev this b f md cs i acc = (Inr dcs, this')"
  shows "\<exists>es. length es = length cs
           \<and> dcs = acc @ chunk_records md f b i cs es
           \<and> (\<forall>j<length cs. embeddings_create ev (length (embeddingLog this) + j) (cs ! j)
                  = Inr (es ! j))
           \<and> embeddingLog this' = embeddingLog this @ cs"
  using assms
proof (induction cs arbitrary: this i acc)
  case Nil
  then show ?case by simp
next
  case (Cons c cs)
  have av: "available this" using Cons.prems by (auto simp: getEmbedding_def split: if_splits)
  let ?this1 = "this\<lparr>embeddingLog := embeddingLog this @ [c]\<rparr>"
  obtain emb where emb: "embeddings_create ev (length (embeddingLog this)) c = Inr emb"
    using Cons.prems av by (cases "embeddings_create ev (length (embeddingLog this)) c")
      (auto simp: getEmbedding_available)
  let ?rec = "\<lparr>chunkIndex = i, chunkText = c, embedding = emb,
                     metadata = chunk_metadata md f b\<rparr>"
  have run: "embed_loop ev ?this1 b f md cs (Suc i) (acc @ [?rec]) = (Inr dcs, this')"
    using Cons.prems av emb by (simp add: getEmbedding_available)
  from Cons.IH[OF run] obtain es where es:
    "length es = length cs"
    "dcs = (acc @ [?rec]) @ chunk_records md f b (Suc i) cs es"
    "\<forall>j<length cs. embeddings_create ev (length (embeddingLog ?this1) + j) (cs ! j) = Inr (es ! j)"
    "embeddingLog this' = embeddingLog ?this1 @ cs"
    by blast
  have calls: "embeddings_create ev (length (embeddingLog this) + j) ((c # cs) ! j)
               = Inr ((emb # es) ! j)" if "j < length (c # cs)" for j
  proof (cases j)
    case 0
    then show ?thesis using emb by simp
  next
    case (Suc j')
    then show ?thesis using es(3) that by simp
  qed
  show ?case
    using es(1,2,4) calls by (intro exI[of _ "emb # es"]) simp
qed


section \<open>Ingestion\<close>

lemma trim_Nil_iff: "trim s = [] \<longleftrightarrow> list_all isWhiteSpace s"
proof
  assume "trim s = []"
  then have all: "\<forall>x\<in>set (dropWhile isWhiteSpace s). isWhiteSpace x"
    by (simp add: trim_def)
  have "dropWhile isWhiteSpace s = []"
  proof (rule ccontr)
    assume ne: "dropWhile isWhiteSpace s \<noteq> []"
    then have "\<not> isWhiteSpace (hd (dropWhile isWhiteSpace s))" by (rule hd_dropWhile)
    moreover have "hd (dropWhile isWhiteSpace s) \<in> set (dropWhile isWhiteSpace s)"
      using ne by simp
    ultimately show False using all by blast
  qed
  then show "list_all isWhiteSpace s" by (simp add: list_all_iff)
next
  assume "list_all isWhiteSpace s"
  then have d: "dropWhile isWhiteSpace s = []" by (simp add: list_all_iff)
  show "trim s = []" unfolding trim_def d by simp
qed

lemma extractText_eq:
  "extractText ev content filename =
     Inr (if pop (split 0x2E (toLowerCase ev filename)) = Some (js ''pdf'')
          then (case pdf ev content of Inl e \<Rightarrow> toString_utf8 ev content | Inr t \<Rightarrow> t)
          else toString_utf8 ev content)"
  by (simp add: extractText_def try_catch_def Let_def split: sum.splits)

lemma extractText_Inr: "\<exists>t. extractText ev content filename = Inr t"
  by (simp add: extractText_eq)

lemma processDocument_unavailable:
  "\<not> available this \<Longrightarrow>
   processDocument ev this b content f md = Some (failure b msg_not_available, this)"
  by (simp add: processDocument_def)

lemma processDocument_blank:
  assumes "available this" and "extractText ev content f = Inr t" and "list_all isWhiteSpace t"
  shows "processDocument ev this b content f md = Some (failure b msg_no_text, this)"
  using assms trim_Nil_iff[of t] by (simp add: processDocument_def)

lemma processDocument_run:
  assumes "available this" and "extractText ev content f = Inr t"
    and "\<not> list_all isWhiteSpace t" and "splitIntoChunks this t = Some chunks"
  shows "processDocument ev this b content f md =
         (case embed_loop ev this b f md chunks 0 [] of
            (Inl e, this') \<Rightarrow> Some (failure b (message e), this')
          | (Inr documentChunks, this') \<Rightarrow>
              Some (\<lparr>success = True, res_blobId = b, chunksCreated = length chunks,
                     textLength = length t, error = None\<rparr>,
                    this'\<lparr>vectorStore := Map_set (vectorStore this') b documentChunks\<rparr>))"
proof -
  have "t \<noteq> []" "trim t \<noteq> []" using assms(3) trim_Nil_iff[of t] by auto
  then show ?thesis using assms by (simp add: processDocument_def)
qed

text \<open>
  Claim C1. Ingestion is atomic. When the service is available, the extracted text is
  not blank and is cut into \<open>chunks\<close>, and the embedding call for some chunk fails,
  then \<open>processDocument\<close> returns, the vector store is the one it started with (no
  chunk list, partial or not, is stored: the \<open>set\<close> of the store comes after the loop
  over the chunks), and the result reports a failure with zero chunks created and an
  error message.
\<close>

theorem processDocument_atomic:
  assumes "available this"
    and "extractText ev content f = Inr t" and "\<not> list_all isWhiteSpace t"
    and "splitIntoChunks this t = Some chunks"
    and "j < length chunks"
    and "embeddings_create ev (length (embeddingLog this) + j) (chunks ! j) = Inl e"
  shows "\<exists>r this'. processDocument ev this b content f md = Some (r, this')
           \<and> vectorStore this' = vectorStore this
           \<and> \<not> success r \<and> chunksCreated r = 0 \<and> error r \<noteq> None"
proof -
  obtain e' this' where run: "embed_loop ev this b f md chunks 0 [] = (Inl e', this')"
    using embed_loop_fails[OF assms(1,5,6)] by blast
  have "vectorStore this' = vectorStore this" using embed_loop_store[OF run] by simp
  moreover have "processDocument ev this b content f md = Some (failure b (message e'), this')"
    using processDocument_run[OF assms(1-4)] run by simp
  ultimately show ?thesis by (simp add: failure_def)
qed


text \<open>
  Five chunks, and a provider that fails at its third call: the store stays empty.
\<close>

theorem processDocument_atomic_witness:
  "\<exists>r this'.
     processDocument
       (example_env (\<lambda>n t. if n = 2 then Inl (Error (js ''rate limit'')) else Inr [Num 1]))
       (service_with 2 0) (js ''doc'') (bytes ''abcdefghij'') (js ''a.txt'') [] = Some (r, this')
     \<and> vectorStore this' = vectorStore (service_with 2 0)
     \<and> \<not> success r \<and> chunksCreated r = 0 \<and> error r \<noteq> None"
proof -
  let ?ev = "example_env (\<lambda>n t. if n = 2 then Inl (Error (js ''rate limit'')) else Inr [Num 1])"
  let ?chunks = "[js ''ab'', js ''cd'', js ''ef'', js ''gh'', js ''ij'']"
  have h1: "available (service_with 2 0)"
    by (simp add: service_with_def new_RAGService_def default_config_def js_def)
  have h2: "extractText ?ev (bytes ''abcdefghij'') (js ''a.txt'') = Inr (js ''abcdefghij'')"
    by (simp add: extractText_eq example_env_def ascii_decode_def ascii_lower_def pop_def
        bytes_def js_def)
  have h3: "\<not> list_all isWhiteSpace (js ''abcdefghij'')"
    by (simp add: js_def isWhiteSpace_def)
  have h4: "splitIntoChunks (service_with 2 0) (js ''abcdefghij'') = Some ?chunks"
    by (simp add: service_with_def new_RAGService_def default_config_def js_def
        splitIntoChunks_def chunk_loop.simps slice_def)
  have h5: "2 < length ?chunks" by simp
  have h6: "embeddings_create ?ev (length (embeddingLog (service_with 2 0)) + 2) (?chunks ! 2)
            = Inl (Error (js ''rate limit''))"
    by (simp add: example_env_def service_with_def new_RAGService_def)
  show ?thesis
    using processDocument_atomic[OF h1 h2 h3 h4 h5 h6] by simp
qed

lemma processDocument_diverges:
  assumes "available this" and "extractText ev content f = Inr t"
    and "\<not> list_all isWhiteSpace t" and "splitIntoChunks this t = None"
  shows "processDocument ev this b content f md = None"
proof -
  have "t \<noteq> []" "trim t \<noteq> []" using assms(3) trim_Nil_iff[of t] by auto
  then show ?thesis using assms by (simp add: processDocument_def)
qed

lemma splitIntoChunks_nonempty:
  assumes "0 \<le> chunkOverlap this" and "chunkOverlap this < chunkSize this" and "t \<noteq> []"
  shows "\<exists>chunks. splitIntoChunks this t = Some chunks \<and> list_all (\<lambda>c. c \<noteq> []) chunks"
proof -
  define s st where "s = nat (chunkSize this)"
    and "st = nat (chunkSize this - chunkOverlap this)"
  define n where "n = chunk_count (chunkSize this) (chunkOverlap this) t"
  have pos: "0 < chunkSize this - chunkOverlap this" "0 < s" using assms by (simp_all add: s_def)
  have n: "0 < n" "(n - 1) * st < length t"
    using chunk_count_bounds[OF pos(1) assms(3)] by (simp_all add: n_def st_def)
  have "take s (drop (i * st) t) \<noteq> []" if "i < n" for i
  proof -
    have "i \<le> n - 1" using that by simp
    then have "i * st \<le> (n - 1) * st" by (rule mult_le_mono1)
    then have "i * st < length t" using n(2) by (rule le_less_trans)
    then show ?thesis using pos(2) by simp
  qed
  then have "list_all (\<lambda>c. c \<noteq> []) (map (\<lambda>i. take s (drop (i * st) t)) [0..<n])"
    by (simp add: list_all_iff)
  then show ?thesis
    using splitIntoChunks_closed[OF assms(1,2), of "t"] by (simp add: s_def st_def n_def)
qed

lemma Map_set_list_all:
  "list_all P m \<Longrightarrow> P (k, v) \<Longrightarrow> list_all P (Map_set m k v)"
  by (induction m k v rule: Map_set.induct) auto

lemma Map_delete_list_all: "list_all P m \<Longrightarrow> list_all P (Map_delete m k)"
  by (simp add: Map_delete_def list_all_iff)

lemma processDocument_preserves_nonempty:
  assumes cfg: "0 \<le> chunkOverlap this" "chunkOverlap this < chunkSize this"
    and inv: "nonempty_chunks this"
  shows "\<exists>r this'. processDocument ev this b content f md = Some (r, this')
           \<and> nonempty_chunks this'"
proof (cases "available this")
  case False
  then show ?thesis using inv by (simp add: processDocument_unavailable)
next
  case True
  obtain t where t: "extractText ev content f = Inr t" using extractText_Inr by blast
  show ?thesis
  proof (cases "list_all isWhiteSpace t")
    case True
    then show ?thesis using \<open>available this\<close> t inv by (simp add: processDocument_blank)
  next
    case False
    then have "t \<noteq> []" by auto
    then obtain chunks where ch: "splitIntoChunks this t = Some chunks"
      "list_all (\<lambda>c. c \<noteq> []) chunks"
      using splitIntoChunks_nonempty[OF cfg] by blast
    note run = processDocument_run[OF \<open>available this\<close> t False ch(1), of b md]
    obtain res this1 where el: "embed_loop ev this b f md chunks 0 [] = (res, this1)"
      by (cases "embed_loop ev this b f md chunks 0 []")
    have st: "vectorStore this1 = vectorStore this" using embed_loop_store[OF el] by simp
    show ?thesis
    proof (cases res)
      case (Inl e)
      then show ?thesis using run el st inv by (simp add: nonempty_chunks_def)
    next
      case (Inr dcs)
      then obtain es where "length es = length chunks" "dcs = chunk_records md f b 0 chunks es"
        using embed_loop_Inr[of ev this b f md chunks 0 "[]" dcs this1] el by auto
      then have "map chunkText dcs = chunks" by (simp add: chunk_records_texts)
      then have "list_all (\<lambda>c. chunkText c \<noteq> []) dcs"
        using ch(2) by (auto simp: list_all_iff)
      then have "list_all (\<lambda>(docId, chunks). list_all (\<lambda>c. chunkText c \<noteq> []) chunks)
                   (Map_set (vectorStore this) b dcs)"
        using inv by (intro Map_set_list_all) (simp_all add: nonempty_chunks_def)
      then show ?thesis using run el st Inr by (simp add: nonempty_chunks_def)
    qed
  qed
qed

text \<open>
  Claim C7. No chunk of the vector store has an empty text. The store of a new service
  is empty; ingesting a document whose extracted text is empty or consists of white
  space only returns \<open>success = false\<close> with zero chunks created and an error message,
  and leaves the service as it was; under the chunker's precondition on the
  configuration (\<open>0 \<le> overlap < size\<close>) every ingestion returns and keeps the
  invariant; and so does every deletion.
\<close>

theorem nonempty_chunks_invariant:
  "nonempty_chunks (new_RAGService cfg)
   \<and> (extractText ev content f = Inr t \<and> list_all isWhiteSpace t \<longrightarrow>
        (\<exists>r. processDocument ev this b content f md = Some (r, this)
             \<and> \<not> success r \<and> chunksCreated r = 0 \<and> error r \<noteq> None))
   \<and> (0 \<le> chunkOverlap this \<and> chunkOverlap this < chunkSize this \<and> nonempty_chunks this \<longrightarrow>
        (\<exists>r this'. processDocument ev this b content f md = Some (r, this')
             \<and> nonempty_chunks this'))
   \<and> (nonempty_chunks this \<longrightarrow> nonempty_chunks (snd (deleteDocument this b)))"
proof (intro conjI impI)
  show "nonempty_chunks (new_RAGService cfg)"
    by (simp add: nonempty_chunks_def new_RAGService_def)
next
  assume a: "extractText ev content f = Inr t \<and> list_all isWhiteSpace t"
  show "\<exists>r. processDocument ev this b content f md = Some (r, this)
             \<and> \<not> success r \<and> chunksCreated r = 0 \<and> error r \<noteq> None"
  proof (cases "available this")
    case True
    then show ?thesis using a by (simp add: processDocument_blank failure_def)
  next
    case False
    then show ?thesis by (simp add: processDocument_unavailable failure_def)
  qed
next
  assume "0 \<le> chunkOverlap this \<and> chunkOverlap this < chunkSize this \<and> nonempty_chunks this"
  then show "\<exists>r this'. processDocument ev this b content f md = Some (r, this')
             \<and> nonempty_chunks this'"
    using processDocument_preserves_nonempty by blast
next
  assume "nonempty_chunks this"
  then show "nonempty_chunks (snd (deleteDocument this b))"
    by (simp add: deleteDocument_def nonempty_chunks_def Map_delete_list_all)
qed


text \<open>
  The default configuration: a document of two blanks is refused, a document of three
  letters is ingested, and the invariant holds after each.
\<close>

theorem nonempty_chunks_invariant_witness:
  "nonempty_chunks (new_RAGService default_config)
   \<and> (\<exists>r. processDocument (example_env (\<lambda>n t. Inr [Num 1])) (new_RAGService default_config)
              (js ''doc'') (bytes ''  '') (js ''a.txt'') []
            = Some (r, new_RAGService default_config)
          \<and> \<not> success r \<and> chunksCreated r = 0 \<and> error r \<noteq> None)
   \<and> (\<exists>r this'. processDocument (example_env (\<lambda>n t. Inr [Num 1]))
              (new_RAGService default_config) (js ''doc'') (bytes ''abc'') (js ''a.txt'') []
            = Some (r, this')
          \<and> nonempty_chunks this')
   \<and> nonempty_chunks (snd (deleteDocument (new_RAGService default_config) (js ''doc'')))"
proof -
  let ?ev = "example_env (\<lambda>n t. Inr [Num 1])"
  let ?svc = "new_RAGService default_config"
  have blank: "extractText ?ev (bytes ''  '') (js ''a.txt'') = Inr (js ''  '')
               \<and> list_all isWhiteSpace (js ''  '')"
    by (simp add: extractText_eq example_env_def ascii_decode_def ascii_lower_def pop_def
        bytes_def js_def isWhiteSpace_def)
  have cfg: "0 \<le> chunkOverlap ?svc \<and> chunkOverlap ?svc < chunkSize ?svc \<and> nonempty_chunks ?svc"
    by (simp add: new_RAGService_def default_config_def nonempty_chunks_def)
  show ?thesis
    using nonempty_chunks_invariant[of default_config ?ev "bytes ''  ''" "js ''a.txt''" "js ''  ''"
        ?svc "js ''doc''" "[]"]
      nonempty_chunks_invariant[of default_config ?ev "bytes ''abc''" "js ''a.txt''" "js ''abc''"
        ?svc "js ''doc''" "[]"]
      blank cfg
    by blast
qed

text \<open>
  Claim C9. Text extraction is total: for every content and file name \<open>extractText\<close>
  returns a text and raises no exception. The text is the parser's for the extension
  \<open>pdf\<close> when the parser succeeds, and the UTF-8 decoding of the bytes in every other
  case (a failure of the parser, any other extension). Hence an ingestion by an
  available service that reports a failure fails at the check for blank text or at an
  embedding call.
\<close>

theorem extractText_total:
  "extractText ev content filename =
     Inr (if pop (split 0x2E (toLowerCase ev filename)) = Some (js ''pdf'')
          then (case pdf ev content of Inl e \<Rightarrow> toString_utf8 ev content | Inr t \<Rightarrow> t)
          else toString_utf8 ev content)
   \<and> (available this \<and> processDocument ev this b content filename md = Some (r, this')
        \<and> \<not> success r \<longrightarrow>
        (\<exists>t. extractText ev content filename = Inr t
           \<and> ((list_all isWhiteSpace t \<and> error r = Some msg_no_text)
              \<or> (\<exists>chunks j e. splitIntoChunks this t = Some chunks \<and> j < length chunks
                    \<and> embeddings_create ev (length (embeddingLog this) + j) (chunks ! j) = Inl e
                    \<and> error r = Some (message e)))))"
proof (intro conjI impI)
  show "extractText ev content filename =
     Inr (if pop (split 0x2E (toLowerCase ev filename)) = Some (js ''pdf'')
          then (case pdf ev content of Inl e \<Rightarrow> toString_utf8 ev content | Inr t \<Rightarrow> t)
          else toString_utf8 ev content)"
    by (simp add: extractText_def try_catch_def Let_def split: sum.splits)
next
  assume a: "available this \<and> processDocument ev this b content filename md = Some (r, this')
        \<and> \<not> success r"
  obtain t where t: "extractText ev content filename = Inr t" using extractText_Inr by blast
  show "\<exists>t. extractText ev content filename = Inr t
           \<and> ((list_all isWhiteSpace t \<and> error r = Some msg_no_text)
              \<or> (\<exists>chunks j e. splitIntoChunks this t = Some chunks \<and> j < length chunks
                    \<and> embeddings_create ev (length (embeddingLog this) + j) (chunks ! j) = Inl e
                    \<and> error r = Some (message e)))"
  proof (cases "list_all isWhiteSpace t")
    case True
    then have "error r = Some msg_no_text"
      using a t processDocument_blank[of this ev content filename t b md]
      by (auto simp: failure_def)
    then show ?thesis using t True by blast
  next
    case False
    obtain chunks where ch: "splitIntoChunks this t = Some chunks"
      using a t False processDocument_diverges[of this ev content filename t b md]
      by (cases "splitIntoChunks this t") auto
    note run = processDocument_run[of this ev content filename t chunks b md]
    obtain res this1 where el: "embed_loop ev this b filename md chunks 0 [] = (res, this1)"
      by (cases "embed_loop ev this b filename md chunks 0 []")
    obtain e where e: "res = Inl e" "error r = Some (message e)"
      using a t False ch run el by (cases res) (auto simp: failure_def)
    obtain j where "j < length chunks"
      "embeddings_create ev (length (embeddingLog this) + j) (chunks ! j) = Inl e"
      using embed_loop_Inl[of this ev b filename md chunks 0 "[]" e this1] a el e(1) by auto
    then show ?thesis using t ch e(2) by blast
  qed
qed


text \<open>
  A file named \<open>Report.PDF\<close> that the parser rejects is decoded as text; an ingestion
  that fails at the third embedding call reports that call's error.
\<close>

theorem extractText_total_witness:
  "extractText (example_env (\<lambda>n t. Inr [Num 1])) (bytes ''hello'') (js ''Report.PDF'')
     = Inr (js ''hello'')
   \<and> (\<exists>t. extractText
              (example_env (\<lambda>n t. if n = 2 then Inl (Error (js ''rate limit'')) else Inr [Num 1]))
              (bytes ''abcdefghij'') (js ''a.txt'') = Inr t
          \<and> ((list_all isWhiteSpace t
               \<and> error (failure (js ''doc'') (js ''rate limit'')) = Some msg_no_text)
             \<or> (\<exists>chunks j e. splitIntoChunks (service_with 2 0) t = Some chunks
                   \<and> j < length chunks
                   \<and> embeddings_create
                        (example_env (\<lambda>n t. if n = 2 then Inl (Error (js ''rate limit''))
                                              else Inr [Num 1]))
                        (length (embeddingLog (service_with 2 0)) + j) (chunks ! j) = Inl e
                   \<and> error (failure (js ''doc'') (js ''rate limit'')) = Some (message e))))"
proof -
  let ?ev = "example_env (\<lambda>n t. if n = 2 then Inl (Error (js ''rate limit'')) else Inr [Num 1])"
  let ?svc = "service_with 2 0"
  let ?chunks = "[js ''ab'', js ''cd'', js ''ef'', js ''gh'', js ''ij'']"
  have h1: "available ?svc"
    by (simp add: service_with_def new_RAGService_def default_config_def js_def)
  have h2: "extractText ?ev (bytes ''abcdefghij'') (js ''a.txt'') = Inr (js ''abcdefghij'')"
    by (simp add: extractText_eq example_env_def ascii_decode_def ascii_lower_def pop_def
        bytes_def js_def)
  have h3: "\<not> list_all isWhiteSpace (js ''abcdefghij'')"
    by (simp add: js_def isWhiteSpace_def)
  have h4: "splitIntoChunks ?svc (js ''abcdefghij'') = Some ?chunks"
    by (simp add: service_with_def new_RAGService_def default_config_def js_def
        splitIntoChunks_def chunk_loop.simps slice_def)
  have run: "processDocument ?ev ?svc (js ''doc'') (bytes ''abcdefghij'') (js ''a.txt'') []
             = Some (failure (js ''doc'') (js ''rate limit''),
                     ?svc\<lparr>embeddingLog := [js ''ab'', js ''cd'', js ''ef'']\<rparr>)"
    unfolding processDocument_run[OF h1 h2 h3 h4]
    by (simp add: getEmbedding_def example_env_def service_with_def new_RAGService_def
        default_config_def js_def)
  have pdf: "extractText (example_env (\<lambda>n t. Inr [Num 1])) (bytes ''hello'') (js ''Report.PDF'')
             = Inr (js ''hello'')"
    using extractText_total[of "example_env (\<lambda>n t. Inr [Num 1])" "bytes ''hello''"
        "js ''Report.PDF''"]
    by (simp add: example_env_def ascii_decode_def ascii_lower_def pop_def bytes_def js_def)
  have "\<not> success (failure (js ''doc'') (js ''rate limit''))" by (simp add: failure_def)
  then show ?thesis
    using extractText_total[of ?ev "bytes ''abcdefghij''" "js ''a.txt''" ?svc "js ''doc''" "[]"
        "failure (js ''doc'') (js ''rate limit'')"
        "?svc\<lparr>embeddingLog := [js ''ab'', js ''cd'', js ''ef'']\<rparr>"]
      h1 run pdf
    by blast
qed

section \<open>Query: the embedding call and the candidates\<close>

lemma allChunks_log [simp]:
  "allChunks (this\<lparr>embeddingLog := l\<rparr>) ids = allChunks this ids"
  by (simp add: allChunks_def split: option.splits)

lemma queryDocuments_unavailable:
  "\<not> available this \<Longrightarrow>
   queryDocuments ev this q ids k = (Inl (Error msg_not_available), this)"
  by (simp add: queryDocuments_def)

lemma queryDocuments_embed_fails:
  assumes "available this" and "embeddings_create ev (length (embeddingLog this)) q = Inl e"
  shows "queryDocuments ev this q ids k
         = (Inl e, this\<lparr>embeddingLog := embeddingLog this @ [q]\<rparr>)"
  using assms by (simp add: queryDocuments_def getEmbedding_available Let_def)

lemma queryDocuments_no_candidates:
  assumes "available this" and "embeddings_create ev (length (embeddingLog this)) q = Inr qe"
    and "allChunks this ids = []"
  shows "queryDocuments ev this q ids k
         = (Inr \<lparr>answer = no_documents_answer, sources = [], question = q\<rparr>,
            this\<lparr>embeddingLog := embeddingLog this @ [q]\<rparr>)"
  using assms by (simp add: queryDocuments_def getEmbedding_available Let_def)

lemma queryDocuments_candidates:
  assumes "available this" and "embeddings_create ev (length (embeddingLog this)) q = Inr qe"
    and "allChunks this ids \<noteq> []"
  shows "queryDocuments ev this q ids k =
         (let top = topChunks ev qe (allChunks this ids) (effective_topK this k);
              usr = userPrompt (build_context top) q;
              this'' = this\<lparr>embeddingLog := embeddingLog this @ [q],
                            completionLog := completionLog this @ [(systemPrompt, usr)]\<rparr>
          in case chat_completions_create ev (length (completionLog this)) systemPrompt usr
                    (temperature this) of
               Inl e \<Rightarrow> (Inl e, this'')
             | Inr ans \<Rightarrow> (Inr \<lparr>answer = ans, sources = map format_source top, question = q\<rparr>,
                           this''))"
  using assms
  by (simp add: queryDocuments_def getEmbedding_available Let_def effective_topK_def
      split: sum.splits)

lemma queryDocuments_embeddingLog:
  "available this \<Longrightarrow>
   embeddingLog (snd (queryDocuments ev this q ids k)) = embeddingLog this @ [q]"
proof -
  assume av: "available this"
  show ?thesis
  proof (cases "embeddings_create ev (length (embeddingLog this)) q")
    case (Inl e)
    then show ?thesis using av by (simp add: queryDocuments_embed_fails)
  next
    case (Inr qe)
    show ?thesis
    proof (cases "allChunks this ids = []")
      case True
      then show ?thesis using av Inr by (simp add: queryDocuments_no_candidates)
    next
      case False
      then show ?thesis using av Inr
        by (simp add: queryDocuments_candidates Let_def split: sum.splits)
    qed
  qed
qed

lemma queryDocuments_no_completion:
  assumes "allChunks this ids = []"
  shows "completionLog (snd (queryDocuments ev this q ids k)) = completionLog this"
proof (cases "available this")
  case False
  then show ?thesis by (simp add: queryDocuments_unavailable)
next
  case True
  then show ?thesis using assms
    by (cases "embeddings_create ev (length (embeddingLog this)) q")
      (simp_all add: queryDocuments_embed_fails queryDocuments_no_candidates)
qed

lemma allChunks_empty_store: "vectorStore this = [] \<Longrightarrow> allChunks this ids = []"
  by (auto simp: allChunks_def Map_values_def split: option.splits)

lemma allChunks_absent:
  assumes "\<forall>d\<in>set ds. Map_get (vectorStore this) d = None" and "ds \<noteq> []"
  shows "allChunks this (Some ds) = []"
  using assms by (auto simp: allChunks_def)


text \<open>
  Claim C6. When the candidate set of a query is empty (an empty store, or a filter that
  names no stored document), \<open>queryDocuments\<close> makes no call to the completion
  endpoint, and, once the service is available and the question has been embedded, it
  returns the fixed no-documents answer with an empty list of sources.
\<close>

theorem queryDocuments_no_documents:
  assumes "allChunks this ids = []"
  shows "completionLog (snd (queryDocuments ev this q ids k)) = completionLog this
       \<and> (available this \<and> embeddings_create ev (length (embeddingLog this)) q = Inr qe \<longrightarrow>
            fst (queryDocuments ev this q ids k)
            = Inr \<lparr>answer = no_documents_answer, sources = [], question = q\<rparr>)"
  using assms
  by (simp add: queryDocuments_no_completion queryDocuments_no_candidates)

text \<open>
  Claim C10. An available service calls the embedding endpoint exactly once in
  \<open>queryDocuments\<close>, with the question, whatever the store holds. The call comes before
  the candidates are looked at: when it fails, its error is the outcome of the query,
  and when the candidate set is empty the call has been made all the same, while no
  completion call is made.
\<close>

theorem queryDocuments_embeds_question_once:
  assumes "available this"
  shows "embeddingLog (snd (queryDocuments ev this q ids k)) = embeddingLog this @ [q]
       \<and> (embeddings_create ev (length (embeddingLog this)) q = Inl e \<longrightarrow>
            fst (queryDocuments ev this q ids k) = Inl e)
       \<and> (allChunks this ids = [] \<longrightarrow>
            completionLog (snd (queryDocuments ev this q ids k)) = completionLog this)"
  using assms
  by (simp add: queryDocuments_embeddingLog queryDocuments_embed_fails
      queryDocuments_no_completion)

lemma allChunks_skip:
  assumes "Map_get (vectorStore this) d = None" and "xs @ ys \<noteq> []"
  shows "allChunks this (Some (xs @ d # ys)) = allChunks this (Some (xs @ ys))"
  using assms by (auto simp: allChunks_def)

text \<open>
  Claim C8. An empty array as the document filter is treated as no filter: the
  candidates are all chunks of all stored documents, in the order of the store. In a
  non-empty filter an identifier that the store does not hold contributes no candidate
  and raises no error: it can be dropped from a filter that names other identifiers,
  and a filter that names only such an identifier has no candidates.
\<close>

theorem allChunks_filter:
  "allChunks this (Some []) = allChunks this None
   \<and> queryDocuments ev this q (Some []) k = queryDocuments ev this q None k
   \<and> allChunks this None = concat (map snd (vectorStore this))
   \<and> (Map_get (vectorStore this) d = None \<and> xs @ ys \<noteq> [] \<longrightarrow>
        allChunks this (Some (xs @ d # ys)) = allChunks this (Some (xs @ ys)))
   \<and> (Map_get (vectorStore this) d = None \<longrightarrow> allChunks this (Some [d]) = [])"
proof (intro conjI impI)
  show a: "allChunks this (Some []) = allChunks this None" by (simp add: allChunks_def)
  have "allChunks this' (Some []) = allChunks this' None" for this'
    by (simp add: allChunks_def)
  then show "queryDocuments ev this q (Some []) k = queryDocuments ev this q None k"
    by (simp add: queryDocuments_def Let_def split: prod.splits sum.splits)
  show "allChunks this None = concat (map snd (vectorStore this))"
    by (simp add: allChunks_def Map_values_def)
  show "allChunks this (Some (xs @ d # ys)) = allChunks this (Some (xs @ ys))"
    if "Map_get (vectorStore this) d = None \<and> xs @ ys \<noteq> []"
    using that allChunks_skip by blast
  show "allChunks this (Some [d]) = []" if "Map_get (vectorStore this) d = None"
    using that by (simp add: allChunks_def)
qed


text \<open>A query against a new service, with a filter that names no stored document.\<close>

theorem queryDocuments_no_documents_witness:
  "completionLog (snd (queryDocuments (example_env (\<lambda>n t. Inr [Num 1]))
       (new_RAGService default_config) (js ''q'') (Some [js ''d1'']) None)) = []
   \<and> fst (queryDocuments (example_env (\<lambda>n t. Inr [Num 1]))
       (new_RAGService default_config) (js ''q'') (Some [js ''d1'']) None)
     = Inr \<lparr>answer = no_documents_answer, sources = [], question = js ''q''\<rparr>"
proof -
  let ?ev = "example_env (\<lambda>n t. Inr [Num 1])"
  let ?svc = "new_RAGService default_config"
  have h: "allChunks ?svc (Some [js ''d1'']) = []"
    by (simp add: allChunks_def new_RAGService_def)
  have a: "available ?svc \<and> embeddings_create ?ev (length (embeddingLog ?svc)) (js ''q'') = Inr [Num 1]"
    by (simp add: new_RAGService_def default_config_def example_env_def js_def)
  have l: "completionLog ?svc = []" by (simp add: new_RAGService_def)
  show ?thesis
    using queryDocuments_no_documents[OF h, of ?ev "js ''q''" None "[Num 1]"] a l by simp
qed

text \<open>
  A query against the empty store: one embedding call, no completion call; and with a
  provider that fails, the provider's error.
\<close>

theorem queryDocuments_embeds_question_once_witness:
  "embeddingLog (snd (queryDocuments (example_env (\<lambda>n t. Inr [Num 1]))
       (new_RAGService default_config) (js ''q'') None None)) = [js ''q'']
   \<and> fst (queryDocuments (example_env (\<lambda>n t. Inl (Error (js ''rate limit''))))
       (new_RAGService default_config) (js ''q'') None None) = Inl (Error (js ''rate limit''))
   \<and> completionLog (snd (queryDocuments (example_env (\<lambda>n t. Inr [Num 1]))
       (new_RAGService default_config) (js ''q'') None None)) = []"
proof -
  let ?ev = "example_env (\<lambda>n t. Inr [Num 1])"
  let ?bad = "example_env (\<lambda>n t. Inl (Error (js ''rate limit'')))"
  let ?svc = "new_RAGService default_config"
  have av: "available ?svc" by (simp add: new_RAGService_def default_config_def js_def)
  have h: "allChunks ?svc None = []"
    by (simp add: allChunks_def new_RAGService_def Map_values_def)
  have l: "completionLog ?svc = []" "embeddingLog ?svc = []" by (simp_all add: new_RAGService_def)
  have b: "embeddings_create ?bad (length (embeddingLog ?svc)) (js ''q'')
           = Inl (Error (js ''rate limit''))"
    by (simp add: example_env_def)
  show ?thesis
    using queryDocuments_embeds_question_once[OF av, of ?ev "js ''q''" None None "Error (js ''rate limit'')"]
      queryDocuments_embeds_question_once[OF av, of ?bad "js ''q''" None None "Error (js ''rate limit'')"]
      h l b
    by simp
qed

text \<open>A store of two documents, and filters that name an unknown identifier.\<close>

theorem allChunks_filter_witness:
  "allChunks (service_holding [(js ''d1'', [example_chunk 0 ''a'' [Num 1] ''d1'']),
                              (js ''d2'', [example_chunk 0 ''b'' [Num 1] ''d2''])]) (Some [])
     = [example_chunk 0 ''a'' [Num 1] ''d1'', example_chunk 0 ''b'' [Num 1] ''d2'']
   \<and> allChunks (service_holding [(js ''d1'', [example_chunk 0 ''a'' [Num 1] ''d1'']),
                              (js ''d2'', [example_chunk 0 ''b'' [Num 1] ''d2''])])
        (Some [js ''d1'', js ''zz''])
     = allChunks (service_holding [(js ''d1'', [example_chunk 0 ''a'' [Num 1] ''d1'']),
                              (js ''d2'', [example_chunk 0 ''b'' [Num 1] ''d2''])])
        (Some [js ''d1''])
   \<and> allChunks (service_holding [(js ''d1'', [example_chunk 0 ''a'' [Num 1] ''d1'']),
                              (js ''d2'', [example_chunk 0 ''b'' [Num 1] ''d2''])])
        (Some [js ''zz'']) = []"
proof -
  let ?svc = "service_holding [(js ''d1'', [example_chunk 0 ''a'' [Num 1] ''d1'']),
                              (js ''d2'', [example_chunk 0 ''b'' [Num 1] ''d2''])]"
  have absent: "Map_get (vectorStore ?svc) (js ''zz'') = None"
    by (simp add: service_holding_def js_def)
  have st: "concat (map snd (vectorStore ?svc))
            = [example_chunk 0 ''a'' [Num 1] ''d1'', example_chunk 0 ''b'' [Num 1] ''d2'']"
    by (simp add: service_holding_def)
  show ?thesis
    using allChunks_filter[of ?svc "example_env (\<lambda>n t. Inr [Num 1])" "js ''q''" None
        "js ''zz''" "[js ''d1'']" "[]"] absent st
    by simp
qed

section \<open>Similarity of vectors of different lengths\<close>

lemma jmul_NaN_right [simp]: "jmul x NaN = NaN"
  by (cases x) simp_all

lemma jadd_NaN_right [simp]: "jadd x NaN = NaN"
  by (cases x) simp_all

lemma cosine_fold_NaN_ex:
  "\<exists>nA'. foldl (cosine_step a b) (NaN, nA, NaN) is = (NaN, nA', NaN)"
  by (induction "is" arbitrary: nA) (auto simp: cosine_step_def)

lemma cosineSimilarity_shorter:
  assumes "length b < length a"
  shows "cosineSimilarity a b = NaN"
proof -
  have up: "[0..<length a] = [0..<length b] @ length b # [Suc (length b)..<length a]"
    using assms by (metis le0 upt_add_eq_append upt_conv_Cons less_imp_le_nat le_add_diff_inverse)
  obtain d nA nB where pre: "foldl (cosine_step a b) (Num 0, Num 0, Num 0) [0..<length b] = (d, nA, nB)"
    by (cases "foldl (cosine_step a b) (Num 0, Num 0, Num 0) [0..<length b]") auto
  define nA1 where "nA1 = jadd nA (jmul (elem a (length b)) (elem a (length b)))"
  have step: "cosine_step a b (d, nA, nB) (length b) = (NaN, nA1, NaN)"
    by (simp add: cosine_step_def elem_def nA1_def)
  obtain nA' where rest:
    "foldl (cosine_step a b) (NaN, nA1, NaN) [Suc (length b)..<length a] = (NaN, nA', NaN)"
    using cosine_fold_NaN_ex by blast
  have "foldl (cosine_step a b) (Num 0, Num 0, Num 0) [0..<length a]
        = foldl (cosine_step a b) (cosine_step a b (d, nA, nB) (length b))
            [Suc (length b)..<length a]"
    by (subst up) (simp only: foldl_append foldl.simps pre)
  then have "foldl (cosine_step a b) (Num 0, Num 0, Num 0) [0..<length a] = (NaN, nA', NaN)"
    by (simp only: step rest)
  then show ?thesis by (simp add: cosineSimilarity_def)
qed

lemma cosineSimilarity_longer:
  assumes "length a \<le> length b"
  shows "cosineSimilarity a b = cosineSimilarity a (take (length a) b)"
proof -
  have "foldl (cosine_step a b) acc is = foldl (cosine_step a (take (length a) b)) acc is"
    if "\<forall>i\<in>set is. i < length a" for acc "is"
    using that assms
    by (induction "is" arbitrary: acc) (auto simp: cosine_step_def elem_def)
  then show ?thesis by (simp add: cosineSimilarity_def)
qed

lemma queryDocuments_error_origin:
  assumes "fst (queryDocuments ev this q ids k) = Inl e"
  shows "(\<not> available this \<and> e = Error msg_not_available)
       \<or> embeddings_create ev (length (embeddingLog this)) q = Inl e
       \<or> (\<exists>usr. chat_completions_create ev (length (completionLog this)) systemPrompt usr
                   (temperature this) = Inl e)"
proof (cases "available this")
  case False
  then show ?thesis using assms by (simp add: queryDocuments_unavailable)
next
  case True
  show ?thesis
  proof (cases "embeddings_create ev (length (embeddingLog this)) q")
    case (Inl e')
    then show ?thesis using True assms by (simp add: queryDocuments_embed_fails)
  next
    case (Inr qe)
    show ?thesis
    proof (cases "allChunks this ids = []")
      case True
      then show ?thesis using \<open>available this\<close> Inr assms
        by (simp add: queryDocuments_no_candidates)
    next
      case False
      then show ?thesis using \<open>available this\<close> Inr assms
        by (auto simp: queryDocuments_candidates Let_def split: sum.splits)
    qed
  qed
qed


text \<open>
  Claim C4, as amended. Retrieval does not compare the length of the query vector with
  the length of a stored vector, and no length makes it fail. Against a stored vector
  that is shorter than the query vector the score is \<open>NaN\<close>; against one that is at
  least as long the score is computed from its first components, as many as the query
  vector has, and the others are ignored. Every error of \<open>queryDocuments\<close> is the
  error of the availability check, of the call that embeds the question, or of the
  completion call.
\<close>

theorem cosineSimilarity_no_dimension_check:
  "(length b < length a \<longrightarrow> cosineSimilarity a b = NaN)
   \<and> (length a \<le> length b \<longrightarrow> cosineSimilarity a b = cosineSimilarity a (take (length a) b))
   \<and> (fst (queryDocuments ev this q ids k) = Inl e \<longrightarrow>
        (\<not> available this \<and> e = Error msg_not_available)
        \<or> embeddings_create ev (length (embeddingLog this)) q = Inl e
        \<or> (\<exists>usr. chat_completions_create ev (length (completionLog this)) systemPrompt usr
                    (temperature this) = Inl e))"
  using cosineSimilarity_shorter cosineSimilarity_longer queryDocuments_error_origin
  by blast

text \<open>
  A stored vector of one component against a query of two, a stored vector of two
  against a query of one, and a query whose error is the embedding call's.
\<close>

theorem cosineSimilarity_no_dimension_check_witness:
  "cosineSimilarity [Num 1, Num 0] [Num 1] = NaN
   \<and> cosineSimilarity [Num 1] [Num 1, Num 5] = cosineSimilarity [Num 1] [Num 1]
   \<and> fst (queryDocuments (example_env (\<lambda>n t. Inl (Error (js ''rate limit''))))
            (new_RAGService default_config) (js ''q'') None None)
       = Inl (Error (js ''rate limit''))
   \<and> embeddings_create (example_env (\<lambda>n t. Inl (Error (js ''rate limit''))))
        (length (embeddingLog (new_RAGService default_config))) (js ''q'')
       = Inl (Error (js ''rate limit''))"
proof -
  let ?bad = "example_env (\<lambda>n t. Inl (Error (js ''rate limit'')))"
  let ?svc = "new_RAGService default_config"
  have av: "available ?svc" by (simp add: new_RAGService_def default_config_def js_def)
  have b: "embeddings_create ?bad (length (embeddingLog ?svc)) (js ''q'')
           = Inl (Error (js ''rate limit''))"
    by (simp add: example_env_def)
  have f: "fst (queryDocuments ?bad ?svc (js ''q'') None None) = Inl (Error (js ''rate limit''))"
    using av b by (simp add: queryDocuments_embed_fails)
  show ?thesis
    using cosineSimilarity_no_dimension_check[of "[Num 1]" "[Num 1, Num 0]" ?bad ?svc "js ''q''"
        None None "Error (js ''rate limit'')"]
      cosineSimilarity_no_dimension_check[of "[Num 1, Num 5]" "[Num 1]" ?bad ?svc "js ''q''"
        None None "Error (js ''rate limit'')"]
      b f
    by simp
qed

text \<open>
  Claim C4 as stated fails. A provider answers the ingestion with a vector of two
  components and the question with a vector of one: the query does not abort, it
  returns the stored chunk as a source, with the score 1.
\<close>

theorem queryDocuments_dimension_counterexample:
  "processDocument (example_env (\<lambda>n t. if n = 0 then Inr [Num 1, Num 5] else Inr [Num 1]))
     (new_RAGService default_config) (js ''d1'') (bytes ''ab'') (js ''a.txt'') []
   = Some (\<lparr>success = True, res_blobId = js ''d1'', chunksCreated = 1, textLength = 2,
            error = None\<rparr>,
           (service_holding [(js ''d1'', [example_chunk 0 ''ab'' [Num 1, Num 5] ''d1''])])
             \<lparr>embeddingLog := [js ''ab'']\<rparr>)
   \<and> fst (queryDocuments
            (example_env (\<lambda>n t. if n = 0 then Inr [Num 1, Num 5] else Inr [Num 1]))
            ((service_holding [(js ''d1'', [example_chunk 0 ''ab'' [Num 1, Num 5] ''d1''])])
               \<lparr>embeddingLog := [js ''ab'']\<rparr>)
            (js ''q'') None None)
     = Inr \<lparr>answer = js ''answer'',
            sources = [\<lparr>src_blobId = JString (js ''d1''), src_excerpt = js ''ab'',
                        src_chunkIndex = 0, src_score = Num 1\<rparr>],
            question = js ''q''\<rparr>"
proof -
  let ?ev = "example_env (\<lambda>n t. if n = 0 then Inr [Num 1, Num 5] else Inr [Num 1])"
  let ?svc = "new_RAGService default_config"
  let ?s1 = "(service_holding [(js ''d1'', [example_chunk 0 ''ab'' [Num 1, Num 5] ''d1''])])
               \<lparr>embeddingLog := [js ''ab'']\<rparr>"
  have h1: "available ?svc"
    by (simp add: new_RAGService_def default_config_def js_def)
  have h2: "extractText ?ev (bytes ''ab'') (js ''a.txt'') = Inr (js ''ab'')"
    by (simp add: extractText_eq example_env_def ascii_decode_def ascii_lower_def pop_def
        bytes_def js_def)
  have h3: "\<not> list_all isWhiteSpace (js ''ab'')"
    by (simp add: js_def isWhiteSpace_def)
  have h4: "splitIntoChunks ?svc (js ''ab'') = Some [js ''ab'']"
    by (simp add: new_RAGService_def default_config_def js_def
        splitIntoChunks_def chunk_loop.simps slice_def)
  have ingest: "processDocument ?ev ?svc (js ''d1'') (bytes ''ab'') (js ''a.txt'') []
    = Some (\<lparr>success = True, res_blobId = js ''d1'', chunksCreated = 1, textLength = 2,
            error = None\<rparr>, ?s1)"
    unfolding processDocument_run[OF h1 h2 h3 h4]
    by (simp add: getEmbedding_def example_env_def service_holding_def new_RAGService_def
        default_config_def example_chunk_def js_def)
  have a1: "available ?s1"
    by (simp add: service_holding_def new_RAGService_def default_config_def js_def)
  have e1: "embeddings_create ?ev (length (embeddingLog ?s1)) (js ''q'') = Inr [Num 1]"
    by (simp add: example_env_def)
  have c1: "allChunks ?s1 None = [example_chunk 0 ''ab'' [Num 1, Num 5] ''d1'']"
    by (simp add: allChunks_def service_holding_def Map_values_def)
  have sc: "cosineSimilarity [Num 1] [Num 1, Num 5] = Num 1"
    by (simp add: cosineSimilarity_def cosine_step_def elem_def)
  have top: "topChunks ?ev [Num 1] [example_chunk 0 ''ab'' [Num 1, Num 5] ''d1''] (effective_topK ?s1 None)
     = [with_score [Num 1] (example_chunk 0 ''ab'' [Num 1, Num 5] ''d1'')]"
    by (simp add: topChunks_def Array_sort_def consistent_def sort_compare_def stable_sort_def
        with_score_def example_chunk_def sc jsub_def slice_def effective_topK_def
        service_holding_def new_RAGService_def default_config_def)
  have src: "format_source (with_score [Num 1] (example_chunk 0 ''ab'' [Num 1, Num 5] ''d1''))
     = \<lparr>src_blobId = JString (js ''d1''), src_excerpt = js ''ab'',
                        src_chunkIndex = 0, src_score = Num 1\<rparr>"
    by (simp add: format_source_def with_score_def sc example_chunk_def chunk_metadata_def
        object_get_def slice_def js_def)
  have query: "fst (queryDocuments ?ev ?s1 (js ''q'') None None)
     = Inr \<lparr>answer = js ''answer'',
            sources = [\<lparr>src_blobId = JString (js ''d1''), src_excerpt = js ''ab'',
                        src_chunkIndex = 0, src_score = Num 1\<rparr>],
            question = js ''q''\<rparr>"
  proof -
    have ne: "allChunks ?s1 None \<noteq> []" using c1 by simp
    have ch: "chat_completions_create ?ev n sys usr temp = Inr (js ''answer'')" for n sys usr temp
      by (simp add: example_env_def)
    show ?thesis
      unfolding queryDocuments_candidates[OF a1 e1 ne] c1 top Let_def ch
      by (simp add: src)
  qed
  show ?thesis using ingest query by simp
qed

section \<open>Ranking\<close>

lemma jge_iff: "a \<noteq> NaN \<Longrightarrow> b \<noteq> NaN \<Longrightarrow> jge a b = (\<not> jless a b)"
  by (cases a; cases b) simp_all

lemma jless_irrefl: "\<not> jless a a"
  by (cases a) simp_all

lemma jless_trans: "jless a b \<Longrightarrow> jless b c \<Longrightarrow> jless a c"
  by (cases a; cases b; cases c) simp_all

lemma jge_trans:
  assumes "a \<noteq> NaN" "b \<noteq> NaN" "c \<noteq> NaN" and "jge a b" "jge b c"
  shows "jge a c"
  using assms by (cases a; cases b; cases c) simp_all

lemma jless_total: "a \<noteq> NaN \<Longrightarrow> b \<noteq> NaN \<Longrightarrow> jless a b \<or> a = b \<or> jless b a"
  by (cases a; cases b) auto

lemma sort_compare_scores:
  fixes a b :: scored_chunk
  assumes "score a \<noteq> NaN" "score b \<noteq> NaN" and "on_grid (score a)" "on_grid (score b)"
  shows "sort_compare (\<lambda>a b. jsub (score b) (score a)) a b
         = (if jless (score b) (score a) then - 1 else if jless (score a) (score b) then 1 else 0)"
  using compare_scores[OF assms] compare_scores_neg[OF assms]
  by (simp add: sort_compare_def Let_def)

lemma consistent_scores:
  fixes xs :: "scored_chunk list"
  assumes "\<forall>y\<in>set xs. score y \<noteq> NaN \<and> on_grid (score y)"
  shows "consistent (\<lambda>a b. jsub (score b) (score a)) xs"
  unfolding consistent_def
proof (intro ballI)
  fix a b c assume "a \<in> set xs" "b \<in> set xs" "c \<in> set xs"
  then have n: "score a \<noteq> NaN" "score b \<noteq> NaN" "score c \<noteq> NaN"
    and g: "on_grid (score a)" "on_grid (score b)" "on_grid (score c)"
    using assms by auto
  note sc = sort_compare_scores[OF n(1) n(1) g(1) g(1)] sort_compare_scores[OF n(1) n(2) g(1) g(2)]
    sort_compare_scores[OF n(2) n(1) g(2) g(1)] sort_compare_scores[OF n(2) n(3) g(2) g(3)]
    sort_compare_scores[OF n(1) n(3) g(1) g(3)]
  have asym: "\<not> (jless (score a) (score b) \<and> jless (score b) (score a))"
    using jless_trans jless_irrefl by blast
  show "sort_compare (\<lambda>a b. jsub (score b) (score a)) a a = 0
      \<and> sort_compare (\<lambda>a b. jsub (score b) (score a)) b a
          = - sort_compare (\<lambda>a b. jsub (score b) (score a)) a b
      \<and> (sort_compare (\<lambda>a b. jsub (score b) (score a)) a b = 0
           \<and> sort_compare (\<lambda>a b. jsub (score b) (score a)) b c = 0
         \<longrightarrow> sort_compare (\<lambda>a b. jsub (score b) (score a)) a c = 0)
      \<and> (sort_compare (\<lambda>a b. jsub (score b) (score a)) a b < 0
           \<and> sort_compare (\<lambda>a b. jsub (score b) (score a)) b c < 0
         \<longrightarrow> sort_compare (\<lambda>a b. jsub (score b) (score a)) a c < 0)"
    unfolding sc
    using asym jless_irrefl[of "score a"] jless_total[OF n(1) n(2)] jless_total[OF n(2) n(3)]
      jless_total[OF n(1) n(3)] jless_trans[of "score c" "score b" "score a"]
    by (auto split: if_splits)
qed

lemma stable_sort_Cons:
  "stable_sort cmp (x # xs) = insert_by cmp x (stable_sort cmp xs)"
  by (simp add: stable_sort_def)

lemma mset_insert_by: "mset (insert_by cmp x ys) = add_mset x (mset ys)"
  by (induction ys) simp_all

lemma mset_stable_sort: "mset (stable_sort cmp xs) = mset xs"
  by (induction xs) (simp_all add: stable_sort_Cons mset_insert_by, simp add: stable_sort_def)

lemma sorted_insert_by:
  fixes x :: scored_chunk
  assumes "score x \<noteq> NaN" and "on_grid (score x)"
    and "\<forall>y\<in>set ys. score y \<noteq> NaN \<and> on_grid (score y)"
    and "sorted_wrt (\<lambda>a b. jge (score a) (score b)) ys"
  shows "sorted_wrt (\<lambda>a b. jge (score a) (score b))
           (insert_by (\<lambda>a b. jsub (score b) (score a)) x ys)"
  using assms
proof (induction ys)
  case Nil
  then show ?case by simp
next
  case (Cons y ys)
  let ?cmp = "\<lambda>a b :: scored_chunk. jsub (score b) (score a)"
  have ny: "score y \<noteq> NaN" "on_grid (score y)" using Cons.prems by simp_all
  note cmp = compare_scores[OF Cons.prems(1) ny(1) Cons.prems(2) ny(2)]
  show ?case
  proof (cases "jless (score x) (score y)")
    case True
    have set: "set (insert_by ?cmp x ys) = insert x (set ys)"
      by (metis mset_insert_by set_mset_add_mset_insert set_mset_mset)
    have "jge (score y) (score x)"
      using True Cons.prems(1) ny(1) jless_trans jless_irrefl by (auto simp: jge_iff)
    then show ?thesis
      using True Cons cmp set by auto
  next
    case False
    then have xy: "jge (score x) (score y)" using Cons.prems(1) ny(1) by (simp add: jge_iff)
    have "jge (score x) (score z)" if "z \<in> set ys" for z
      using that Cons.prems xy ny(1) jge_trans[of "score x" "score y" "score z"] by auto
    then show ?thesis
      using False Cons.prems xy cmp by auto
  qed
qed

lemma stable_insert_by:
  fixes x :: scored_chunk
  assumes "score x \<noteq> NaN" and "on_grid (score x)"
    and "\<forall>y\<in>set ys. score y \<noteq> NaN \<and> on_grid (score y)"
  shows "filter (\<lambda>c. score c = v) (insert_by (\<lambda>a b. jsub (score b) (score a)) x ys)
         = filter (\<lambda>c. score c = v) (x # ys)"
  using assms
proof (induction ys)
  case Nil
  then show ?case by simp
next
  case (Cons y ys)
  have ny: "score y \<noteq> NaN" "on_grid (score y)" using Cons.prems by simp_all
  note cmp = compare_scores[OF Cons.prems(1) ny(1) Cons.prems(2) ny(2)]
  show ?case
  proof (cases "jless (score x) (score y)")
    case True
    then have "score x \<noteq> score y" using jless_irrefl by auto
    then show ?thesis
      using True Cons cmp by auto
  next
    case False
    then show ?thesis using cmp by simp
  qed
qed

lemma stable_sort_scores:
  fixes xs :: "scored_chunk list"
  assumes "\<forall>y\<in>set xs. score y \<noteq> NaN \<and> on_grid (score y)"
  shows "sorted_wrt (\<lambda>a b. jge (score a) (score b))
           (stable_sort (\<lambda>a b. jsub (score b) (score a)) xs)
       \<and> (\<forall>v. filter (\<lambda>c. score c = v) (stable_sort (\<lambda>a b. jsub (score b) (score a)) xs)
               = filter (\<lambda>c. score c = v) xs)"
  using assms
proof (induction xs)
  case Nil
  then show ?case by (simp add: stable_sort_def)
next
  case (Cons x xs)
  let ?s = "stable_sort (\<lambda>a b. jsub (score b) (score a)) xs"
  have "set ?s = set xs" by (metis mset_stable_sort set_mset_mset)
  then have nn: "\<forall>y\<in>set ?s. score y \<noteq> NaN \<and> on_grid (score y)"
    using Cons.prems by simp
  have x: "score x \<noteq> NaN" "on_grid (score x)" using Cons.prems by simp_all
  have ih: "sorted_wrt (\<lambda>a b. jge (score a) (score b)) ?s"
    "\<And>v. filter (\<lambda>c. score c = v) ?s = filter (\<lambda>c. score c = v) xs"
    using Cons by auto
  show ?case
    unfolding stable_sort_Cons
    using sorted_insert_by[OF x nn ih(1)] stable_insert_by[OF x nn] ih(2) by simp
qed

lemma Array_sort_scores:
  fixes xs :: "scored_chunk list"
  assumes "\<forall>y\<in>set xs. score y \<noteq> NaN \<and> on_grid (score y)"
  shows "Array_sort engine (\<lambda>a b. jsub (score b) (score a)) xs
         = stable_sort (\<lambda>a b. jsub (score b) (score a)) xs"
  using consistent_scores[OF assms] by (simp add: Array_sort_def)

lemma slice_take: "0 < k \<Longrightarrow> slice xs 0 k = take (nat k) xs"
  by (simp add: slice_def Let_def min_def) 


text \<open>
  Claim C5, as amended. The scores are the ones that \<open>cosineSimilarity\<close> computes in
  doubles, every operation rounded. Let the candidate set be non-empty, let every
  candidate's score be a number (none is \<open>NaN\<close>), and let the number
  \<open>k\<close> of results asked for be positive. Then the sources that \<open>queryDocuments\<close>
  returns are the first \<open>min(k, n)\<close> of the \<open>n\<close> candidates in the order \<open>ranked\<close>, which
  is a permutation of the scored candidates, descending in the score, and stable:
  candidates of equal score keep the order in which they were gathered. When \<open>k\<close>
  exceeds \<open>n\<close>, all candidates are returned. The comparison \<open>b.score - a.score\<close>, rounded,
  keeps the sign of the order of the two scores, so it orders the candidates and the
  result is the same on every engine.
\<close>

theorem queryDocuments_ranking:
  assumes "available this"
    and "embeddings_create ev (length (embeddingLog this)) q = Inr qe"
    and "allChunks this ids \<noteq> []"
    and "0 < effective_topK this k"
    and "\<forall>c\<in>set (allChunks this ids). cosineSimilarity qe (embedding c) \<noteq> NaN"
    and "chat_completions_create ev (length (completionLog this)) systemPrompt
           (userPrompt (build_context
              (topChunks ev qe (allChunks this ids) (effective_topK this k))) q)
           (temperature this) = Inr ans"
  shows "\<exists>ranked.
           topChunks ev qe (allChunks this ids) (effective_topK this k)
             = take (nat (effective_topK this k)) ranked
         \<and> fst (queryDocuments ev this q ids k)
             = Inr \<lparr>answer = ans,
                    sources = map format_source (take (nat (effective_topK this k)) ranked),
                    question = q\<rparr>
         \<and> mset ranked = mset (map (with_score qe) (allChunks this ids))
         \<and> sorted_wrt (\<lambda>a b. jge (score a) (score b)) ranked
         \<and> (\<forall>v. filter (\<lambda>c. score c = v) ranked
                = filter (\<lambda>c. score c = v) (map (with_score qe) (allChunks this ids)))
         \<and> length (take (nat (effective_topK this k)) ranked)
             = min (nat (effective_topK this k)) (length (allChunks this ids))"
proof -
  define scored where "scored = map (with_score qe) (allChunks this ids)"
  define ranked where "ranked = stable_sort (\<lambda>a b. jsub (score b) (score a)) scored"
  have nn: "\<forall>y\<in>set scored. score y \<noteq> NaN \<and> on_grid (score y)"
    using assms(5) by (simp add: scored_def with_score_def cosineSimilarity_on_grid)
  have top: "topChunks ev qe (allChunks this ids) (effective_topK this k)
             = take (nat (effective_topK this k)) ranked"
    using assms(4) Array_sort_scores[OF nn]
    by (simp add: topChunks_def slice_take ranked_def scored_def)
  have res: "fst (queryDocuments ev this q ids k)
             = Inr \<lparr>answer = ans,
                    sources = map format_source (take (nat (effective_topK this k)) ranked),
                    question = q\<rparr>"
    unfolding queryDocuments_candidates[OF assms(1-3)] Let_def assms(6) top[symmetric]
    by simp
  have perm: "mset ranked = mset scored" by (simp add: ranked_def mset_stable_sort)
  have len: "length ranked = length (allChunks this ids)"
    using perm by (metis size_mset length_map scored_def)
  show ?thesis
    using top res perm stable_sort_scores[OF nn] len
    unfolding ranked_def[symmetric] scored_def[symmetric]
    by (intro exI[of _ ranked]) (simp add: min_def)
qed


text \<open>
  Four candidates of scores 0, 1, 0 and -1, and three results asked for: the chunks of
  index 1, 0 and 2, in this order. And two candidates that only rounding tells apart:
  the stored vectors \<open>[1, 1]\<close> and \<open>[3, 3]\<close> against the question \<open>[1, 1]\<close>, with the
  scores \<open>1 - 2^-52\<close> and 1; the second chunk is the one returned.
\<close>

theorem queryDocuments_ranking_witness:
  "(\<exists>ranked.
     topChunks (example_env (\<lambda>n t. Inr [Num 1, Num 0])) [Num 1, Num 0]
       [example_chunk 0 ''a'' [Num 0, Num 1] ''d1'', example_chunk 1 ''b'' [Num 1, Num 0] ''d1'',
        example_chunk 2 ''c'' [Num 0, Num 1] ''d1'', example_chunk 3 ''d'' [Num (- 1), Num 0] ''d1'']
       3 = take 3 ranked
   \<and> fst (queryDocuments (example_env (\<lambda>n t. Inr [Num 1, Num 0]))
        (service_holding [(js ''d1'',
          [example_chunk 0 ''a'' [Num 0, Num 1] ''d1'', example_chunk 1 ''b'' [Num 1, Num 0] ''d1'',
           example_chunk 2 ''c'' [Num 0, Num 1] ''d1'',
           example_chunk 3 ''d'' [Num (- 1), Num 0] ''d1''])])
        (js ''q'') None (Some 3))
      = Inr \<lparr>answer = js ''answer'', sources = map format_source (take 3 ranked),
             question = js ''q''\<rparr>
   \<and> mset ranked = mset (map (with_score [Num 1, Num 0])
       [example_chunk 0 ''a'' [Num 0, Num 1] ''d1'', example_chunk 1 ''b'' [Num 1, Num 0] ''d1'',
        example_chunk 2 ''c'' [Num 0, Num 1] ''d1'', example_chunk 3 ''d'' [Num (- 1), Num 0] ''d1''])
   \<and> sorted_wrt (\<lambda>a b. jge (score a) (score b)) ranked
   \<and> map chunkIndex (take 3 ranked) = [1, 0, 2])
   \<and> (\<exists>ranked.
     topChunks (example_env (\<lambda>n t. Inr [Num 1, Num 1])) [Num 1, Num 1]
       [example_chunk 0 ''a'' [Num 1, Num 1] ''d1'', example_chunk 1 ''b'' [Num 3, Num 3] ''d1'']
       1 = take 1 ranked
   \<and> fst (queryDocuments (example_env (\<lambda>n t. Inr [Num 1, Num 1]))
        (service_holding [(js ''d1'',
          [example_chunk 0 ''a'' [Num 1, Num 1] ''d1'',
           example_chunk 1 ''b'' [Num 3, Num 3] ''d1''])])
        (js ''q'') None (Some 1))
      = Inr \<lparr>answer = js ''answer'', sources = map format_source (take 1 ranked),
             question = js ''q''\<rparr>
   \<and> sorted_wrt (\<lambda>a b. jge (score a) (score b)) ranked
   \<and> map score ranked = [Num 1, Num (1 - 1 / 2 ^ 52)]
   \<and> map chunkIndex (take 1 ranked) = [1])"
proof -
  have ties: "\<exists>ranked.
     topChunks (example_env (\<lambda>n t. Inr [Num 1, Num 0])) [Num 1, Num 0]
       [example_chunk 0 ''a'' [Num 0, Num 1] ''d1'', example_chunk 1 ''b'' [Num 1, Num 0] ''d1'',
        example_chunk 2 ''c'' [Num 0, Num 1] ''d1'', example_chunk 3 ''d'' [Num (- 1), Num 0] ''d1'']
       3 = take 3 ranked
   \<and> fst (queryDocuments (example_env (\<lambda>n t. Inr [Num 1, Num 0]))
        (service_holding [(js ''d1'',
          [example_chunk 0 ''a'' [Num 0, Num 1] ''d1'', example_chunk 1 ''b'' [Num 1, Num 0] ''d1'',
           example_chunk 2 ''c'' [Num 0, Num 1] ''d1'',
           example_chunk 3 ''d'' [Num (- 1), Num 0] ''d1''])])
        (js ''q'') None (Some 3))
      = Inr \<lparr>answer = js ''answer'', sources = map format_source (take 3 ranked),
             question = js ''q''\<rparr>
   \<and> mset ranked = mset (map (with_score [Num 1, Num 0])
       [example_chunk 0 ''a'' [Num 0, Num 1] ''d1'', example_chunk 1 ''b'' [Num 1, Num 0] ''d1'',
        example_chunk 2 ''c'' [Num 0, Num 1] ''d1'', example_chunk 3 ''d'' [Num (- 1), Num 0] ''d1''])
   \<and> sorted_wrt (\<lambda>a b. jge (score a) (score b)) ranked
   \<and> map chunkIndex (take 3 ranked) = [1, 0, 2]"
  proof -
    let ?ev = "example_env (\<lambda>n t. Inr [Num 1, Num 0])"
    let ?cs = "[example_chunk 0 ''a'' [Num 0, Num 1] ''d1'', example_chunk 1 ''b'' [Num 1, Num 0] ''d1'',
          example_chunk 2 ''c'' [Num 0, Num 1] ''d1'', example_chunk 3 ''d'' [Num (- 1), Num 0] ''d1'']"
    let ?svc = "service_holding [(js ''d1'', ?cs)]"
    have h1: "available ?svc"
      by (simp add: service_holding_def new_RAGService_def default_config_def js_def)
    have h2: "embeddings_create ?ev (length (embeddingLog ?svc)) (js ''q'') = Inr [Num 1, Num 0]"
      by (simp add: example_env_def)
    have cs: "allChunks ?svc None = ?cs"
      by (simp add: allChunks_def service_holding_def Map_values_def)
    have h3: "allChunks ?svc None \<noteq> []" unfolding cs by simp
    have k3: "effective_topK ?svc (Some 3) = 3" by (simp add: effective_topK_def)
    have h4: "0 < effective_topK ?svc (Some 3)" unfolding k3 by simp
    have sc: "cosineSimilarity [Num 1, Num 0] [Num 0, Num 1] = Num 0"
      "cosineSimilarity [Num 1, Num 0] [Num 1, Num 0] = Num 1"
      "cosineSimilarity [Num 1, Num 0] [Num (- 1), Num 0] = Num (- 1)"
      by (simp_all add: cosineSimilarity_def cosine_step_def elem_def upt_rec)
    have h5: "\<forall>c\<in>set (allChunks ?svc None). cosineSimilarity [Num 1, Num 0] (embedding c) \<noteq> NaN"
      unfolding cs by (simp add: example_chunk_def sc)
    have h6: "chat_completions_create ?ev (length (completionLog ?svc)) systemPrompt
             (userPrompt (build_context
                (topChunks ?ev [Num 1, Num 0] (allChunks ?svc None) (effective_topK ?svc (Some 3))))
                (js ''q''))
             (temperature ?svc) = Inr (js ''answer'')"
      by (simp add: example_env_def)
    have "\<forall>y\<in>set (map (with_score [Num 1, Num 0]) ?cs). score y \<noteq> NaN \<and> on_grid (score y)"
      using h5 unfolding cs by (simp add: with_score_def cosineSimilarity_on_grid)
    then have "consistent (\<lambda>a b. jsub (score b) (score a)) (map (with_score [Num 1, Num 0]) ?cs)"
      by (rule consistent_scores)
    then have top: "map chunkIndex (topChunks ?ev [Num 1, Num 0] ?cs 3) = [1, 0, 2]"
      unfolding topChunks_def Array_sort_def
      by (simp add: stable_sort_def with_score_def example_chunk_def sc jsub_def slice_def)
    from queryDocuments_ranking[OF h1 h2 h3 h4 h5 h6]
    obtain ranked where r:
      "topChunks ?ev [Num 1, Num 0] ?cs 3 = take 3 ranked"
      "fst (queryDocuments ?ev ?svc (js ''q'') None (Some 3))
        = Inr \<lparr>answer = js ''answer'', sources = map format_source (take 3 ranked),
               question = js ''q''\<rparr>"
      "mset ranked = mset (map (with_score [Num 1, Num 0]) ?cs)"
      "sorted_wrt (\<lambda>a b. jge (score a) (score b)) ranked"
      unfolding cs k3 by auto
    show ?thesis
      using r top by (intro exI[of _ ranked]) simp
  qed
  have rounded: "\<exists>ranked.
     topChunks (example_env (\<lambda>n t. Inr [Num 1, Num 1])) [Num 1, Num 1]
       [example_chunk 0 ''a'' [Num 1, Num 1] ''d1'', example_chunk 1 ''b'' [Num 3, Num 3] ''d1'']
       1 = take 1 ranked
   \<and> fst (queryDocuments (example_env (\<lambda>n t. Inr [Num 1, Num 1]))
        (service_holding [(js ''d1'',
          [example_chunk 0 ''a'' [Num 1, Num 1] ''d1'',
           example_chunk 1 ''b'' [Num 3, Num 3] ''d1''])])
        (js ''q'') None (Some 1))
      = Inr \<lparr>answer = js ''answer'', sources = map format_source (take 1 ranked),
             question = js ''q''\<rparr>
   \<and> sorted_wrt (\<lambda>a b. jge (score a) (score b)) ranked
   \<and> map score ranked = [Num 1, Num (1 - 1 / 2 ^ 52)]
   \<and> map chunkIndex (take 1 ranked) = [1]"
  proof -
    let ?ev = "example_env (\<lambda>n t. Inr [Num 1, Num 1])"
    let ?q = "[Num 1, Num 1]"
    let ?A = "example_chunk 0 ''a'' [Num 1, Num 1] ''d1''"
    let ?B = "example_chunk 1 ''b'' [Num 3, Num 3] ''d1''"
    let ?svc = "service_holding [(js ''d1'', [?A, ?B])]"
    have h1: "available ?svc"
      by (simp add: service_holding_def new_RAGService_def default_config_def js_def)
    have h2: "embeddings_create ?ev (length (embeddingLog ?svc)) (js ''q'') = Inr ?q"
      by (simp add: example_env_def)
    have cs: "allChunks ?svc None = [?A, ?B]"
      by (simp add: allChunks_def service_holding_def Map_values_def)
    have h3: "allChunks ?svc None \<noteq> []" unfolding cs by simp
    have k1: "effective_topK ?svc (Some 1) = 1" by (simp add: effective_topK_def)
    have h4: "0 < effective_topK ?svc (Some 1)" unfolding k1 by simp
    have sc: "score (with_score ?q ?A) = Num (1 - 1 / 2 ^ 52)" "score (with_score ?q ?B) = Num 1"
      by (simp_all only: with_score_def example_chunk_def chunk.simps scored_chunk.simps
          cosineSimilarity_parallel_same cosineSimilarity_parallel_longer)
    have h5: "\<forall>c\<in>set (allChunks ?svc None). cosineSimilarity ?q (embedding c) \<noteq> NaN"
      unfolding cs
      by (simp add: example_chunk_def cosineSimilarity_parallel_same
          cosineSimilarity_parallel_longer)
    have h6: "chat_completions_create ?ev (length (completionLog ?svc)) systemPrompt
             (userPrompt (build_context
                (topChunks ?ev ?q (allChunks ?svc None) (effective_topK ?svc (Some 1))))
                (js ''q''))
             (temperature ?svc) = Inr (js ''answer'')"
      by (simp add: example_env_def)
    from queryDocuments_ranking[OF h1 h2 h3 h4 h5 h6]
    obtain ranked where r:
      "topChunks ?ev ?q [?A, ?B] 1 = take 1 ranked"
      "fst (queryDocuments ?ev ?svc (js ''q'') None (Some 1))
        = Inr \<lparr>answer = js ''answer'', sources = map format_source (take 1 ranked),
               question = js ''q''\<rparr>"
      "mset ranked = mset (map (with_score ?q) [?A, ?B])"
      "sorted_wrt (\<lambda>a b. jge (score a) (score b)) ranked"
      unfolding cs k1 by auto
    have len: "length ranked = 2" using r(3) by (metis size_mset length_map length_Cons list.size(3) numeral_2_eq_2)
    then obtain x y where xy: "ranked = [x, y]"
      by (metis length_0_conv length_Suc_conv numeral_2_eq_2)
    have "{#x, y#} = {#with_score ?q ?A, with_score ?q ?B#}" using r(3) xy by simp
    then have "(x = with_score ?q ?A \<and> y = with_score ?q ?B)
             \<or> (x = with_score ?q ?B \<and> y = with_score ?q ?A)"
      by (auto simp: add_eq_conv_ex)
    moreover have "\<not> jge (score (with_score ?q ?A)) (score (with_score ?q ?B))"
      unfolding sc by simp
    ultimately have ord: "x = with_score ?q ?B" "y = with_score ?q ?A"
      using r(4) xy by auto
    have "map score ranked = [Num 1, Num (1 - 1 / 2 ^ 52)]"
      unfolding xy ord by (simp only: list.map sc)
    moreover have "map chunkIndex (take 1 ranked) = [1]"
      unfolding xy ord by (simp add: with_score_def example_chunk_def)
    ultimately show ?thesis using r by (intro exI[of _ ranked]) simp
  qed
  show ?thesis using ties rounded by (rule conjI)
qed

text \<open>
  Claim C5 as stated fails. A document of two chunks is ingested; the provider embeds
  the first chunk as the zero vector, whose similarity to any question is \<open>0 / 0\<close>.
  The comparison of that score with any other is \<open>NaN\<close>, which the sort reads as a
  tie; every comparison among the two chunks is then a tie, which no stable sort
  reorders, so the chunk stays in front: with one result asked for, the query returns
  it and leaves out the second chunk, whose similarity to the question is 1.
\<close>

theorem queryDocuments_ranking_counterexample:
  "processDocument (example_env (\<lambda>n t. if n = 0 then Inr [Num 0] else Inr [Num 1]))
     (service_with 1 0) (js ''d1'') (bytes ''ab'') (js ''a.txt'') []
   = Some (\<lparr>success = True, res_blobId = js ''d1'', chunksCreated = 2, textLength = 2,
            error = None\<rparr>,
           (service_with 1 0)
             \<lparr>vectorStore := [(js ''d1'', [example_chunk 0 ''a'' [Num 0] ''d1'',
                                           example_chunk 1 ''b'' [Num 1] ''d1''])],
              embeddingLog := [js ''a'', js ''b'']\<rparr>)
   \<and> fst (queryDocuments
            (example_env (\<lambda>n t. if n = 0 then Inr [Num 0] else Inr [Num 1]))
            ((service_with 1 0)
               \<lparr>vectorStore := [(js ''d1'', [example_chunk 0 ''a'' [Num 0] ''d1'',
                                             example_chunk 1 ''b'' [Num 1] ''d1''])],
                embeddingLog := [js ''a'', js ''b'']\<rparr>)
            (js ''q'') None (Some 1))
     = Inr \<lparr>answer = js ''answer'',
            sources = [\<lparr>src_blobId = JString (js ''d1''), src_excerpt = js ''a'',
                        src_chunkIndex = 0, src_score = NaN\<rparr>],
            question = js ''q''\<rparr>
   \<and> cosineSimilarity [Num 1] (embedding (example_chunk 1 ''b'' [Num 1] ''d1'')) = Num 1"
proof -
  let ?ev = "example_env (\<lambda>n t. if n = 0 then Inr [Num 0] else Inr [Num 1])"
  let ?svc = "service_with 1 0"
  let ?cs = "[example_chunk 0 ''a'' [Num 0] ''d1'', example_chunk 1 ''b'' [Num 1] ''d1'']"
  let ?s1 = "?svc\<lparr>vectorStore := [(js ''d1'', ?cs)], embeddingLog := [js ''a'', js ''b'']\<rparr>"
  have h1: "available ?svc"
    by (simp add: service_with_def new_RAGService_def default_config_def js_def)
  have h2: "extractText ?ev (bytes ''ab'') (js ''a.txt'') = Inr (js ''ab'')"
    by (simp add: extractText_eq example_env_def ascii_decode_def ascii_lower_def pop_def
        bytes_def js_def)
  have h3: "\<not> list_all isWhiteSpace (js ''ab'')"
    by (simp add: js_def isWhiteSpace_def)
  have h4: "splitIntoChunks ?svc (js ''ab'') = Some [js ''a'', js ''b'']"
    by (simp add: service_with_def new_RAGService_def default_config_def js_def
        splitIntoChunks_def chunk_loop.simps slice_def)
  have ingest: "processDocument ?ev ?svc (js ''d1'') (bytes ''ab'') (js ''a.txt'') []
    = Some (\<lparr>success = True, res_blobId = js ''d1'', chunksCreated = 2, textLength = 2,
            error = None\<rparr>, ?s1)"
    unfolding processDocument_run[OF h1 h2 h3 h4]
    by (simp add: getEmbedding_def example_env_def service_with_def new_RAGService_def
        default_config_def example_chunk_def js_def)
  have a1: "available ?s1"
    by (simp add: service_with_def new_RAGService_def default_config_def js_def)
  have e1: "embeddings_create ?ev (length (embeddingLog ?s1)) (js ''q'') = Inr [Num 1]"
    by (simp add: example_env_def)
  have c1: "allChunks ?s1 None = ?cs"
    by (simp add: allChunks_def Map_values_def)
  have ne: "allChunks ?s1 None \<noteq> []" unfolding c1 by simp
  have sc: "cosineSimilarity [Num 1] [Num 0] = NaN" "cosineSimilarity [Num 1] [Num 1] = Num 1"
    by (simp_all add: cosineSimilarity_def cosine_step_def elem_def)
  have top: "topChunks ?ev [Num 1] ?cs (effective_topK ?s1 (Some 1))
     = [with_score [Num 1] (example_chunk 0 ''a'' [Num 0] ''d1'')]"
    by (simp add: topChunks_def Array_sort_def consistent_def sort_compare_def stable_sort_def
        slice_def effective_topK_def with_score_def example_chunk_def sc jsub_def)
  have src: "format_source (with_score [Num 1] (example_chunk 0 ''a'' [Num 0] ''d1''))
     = \<lparr>src_blobId = JString (js ''d1''), src_excerpt = js ''a'',
                        src_chunkIndex = 0, src_score = NaN\<rparr>"
    by (simp add: format_source_def with_score_def sc example_chunk_def chunk_metadata_def
        object_get_def slice_def js_def)
  have ch: "chat_completions_create ?ev n sys usr temp = Inr (js ''answer'')" for n sys usr temp
    by (simp add: example_env_def)
  have query: "fst (queryDocuments ?ev ?s1 (js ''q'') None (Some 1))
     = Inr \<lparr>answer = js ''answer'',
            sources = [\<lparr>src_blobId = JString (js ''d1''), src_excerpt = js ''a'',
                        src_chunkIndex = 0, src_score = NaN\<rparr>],
            question = js ''q''\<rparr>"
    unfolding queryDocuments_candidates[OF a1 e1 ne] c1 top Let_def ch
    by (simp add: src)
  show ?thesis using ingest query sc(2) by (simp add: example_chunk_def)
qed

end
